theory Spec2Isabelle
  imports Complex_Main "HOL-Library.Sublist" "HOL-Library.Multiset"
begin

section \<open>FileVue server: session authority\<close>

text \<open>
  The server keeps one process-wide counter, \<open>sessionVersion\<close> (server.js, line 70),
  that every issued JSON web token embeds. The middleware \<open>requireAuth\<close> compares the
  embedded value with the current one.

  The \<open>jsonwebtoken\<close> library is not part of the repository. A token is modelled by what
  the library makes observable: the key it was signed with and its payload, or a string
  that is no token at all. Times of the library are in seconds.
\<close>

record jwt_payload =
  username :: string
  sessionVersion :: nat
  jwt_exp :: int

datatype jwt = Signed string jwt_payload | Garbage string

datatype jwt_error = JsonWebTokenError | TokenExpiredError

definition jwt_sign :: "string \<Rightarrow> nat \<Rightarrow> string \<Rightarrow> int \<Rightarrow> int \<Rightarrow> jwt" where
  "jwt_sign user ver secret expiresIn now =
     Signed secret \<lparr>username = user, sessionVersion = ver, jwt_exp = now + expiresIn\<rparr>"

definition jwt_verify :: "jwt \<Rightarrow> string \<Rightarrow> int \<Rightarrow> jwt_error + jwt_payload" where
  "jwt_verify token secret now =
     (case token of
        Garbage s \<Rightarrow> Inl JsonWebTokenError
      | Signed k p \<Rightarrow>
          if k \<noteq> secret then Inl JsonWebTokenError
          else if now \<ge> jwt_exp p then Inl TokenExpiredError
          else Inr p)"

text \<open>The request as \<open>requireAuth\<close> and \<open>csrfProtection\<close> read it.\<close>

datatype auth_header = NoHeader | Bearer jwt | OtherHeader string

record request =
  req_method :: string
  req_path :: string
  req_authorization :: auth_header
  req_cookie_token :: "jwt option"
  req_cookie_csrf :: "string option"
  req_header_csrf :: "string option"

record config =
  AUTH_REQUIRED :: bool
  SESSION_SECRET :: string
  SESSION_TTL_SECONDS :: int
  AUTH_USERNAME :: string
  storedPassword :: string

text \<open>A middleware either hands the request on (with the user it attached, if any) or
  answers with a status and the \<open>error\<close> field of the JSON body.\<close>

datatype mw_result = Next "jwt_payload option" | Respond nat string

text \<open>JavaScript truthiness of a token value: \<open>null\<close> and the empty string are falsy.\<close>

fun falsy_token :: "jwt option \<Rightarrow> bool" where
  "falsy_token None = True"
| "falsy_token (Some (Garbage s)) = (s = [])"
| "falsy_token (Some (Signed k p)) = False"

definition extractToken :: "request \<Rightarrow> jwt option" where
  "extractToken req =
     (case req_authorization req of
        Bearer t \<Rightarrow> Some t
      | _ \<Rightarrow> (if \<not> falsy_token (req_cookie_token req) then req_cookie_token req else None))"

definition open_paths :: "string list" where
  "open_paths = [''/auth/login'', ''/auth/status'', ''/auth/logout'', ''/health'']"

definition share_public_path :: "string \<Rightarrow> bool" where
  "share_public_path p \<longleftrightarrow>
     prefix ''/shares/'' p \<and>
     (suffix ''/verify'' p \<or> suffix ''/content'' p \<or> suffix ''/download'' p \<or>
      suffix ''/entries'' p \<or> suffix ''/thumbnail'' p \<or> suffix ''/preview'' p)"

definition requireAuth :: "config \<Rightarrow> nat \<Rightarrow> int \<Rightarrow> request \<Rightarrow> mw_result" where
  "requireAuth cfg version now req =
     (if \<not> AUTH_REQUIRED cfg then Next None
      else if req_method req = ''OPTIONS'' then Next None
      else if req_path req \<in> set open_paths then Next None
      else if share_public_path (req_path req) then Next None
      else if falsy_token (extractToken req) then Respond 401 ''Authentication required.''
      else (case jwt_verify (the (extractToken req)) (SESSION_SECRET cfg) now of
              Inr payload \<Rightarrow>
                if sessionVersion payload \<noteq> version
                then Respond 401 ''Session has been invalidated.''
                else Next (Some payload)
            | Inl err \<Rightarrow> Respond 401 ''Invalid or expired token.''))"

definition getSessionVersion :: "nat \<Rightarrow> nat" where
  "getSessionVersion version = version"

definition incrementSessionVersion :: "nat \<Rightarrow> nat" where
  "incrementSessionVersion version = version + 1"

subsection \<open>Credentials and CSRF (utils/index.js, server.js)\<close>

text \<open>A JavaScript value as far as the code tells values apart: a string, \<open>undefined\<close>,
  or some other truthy value that is not a string (a number, an object).\<close>

datatype jsv = JString string | JUndefined | JOther

fun js_falsy :: "jsv \<Rightarrow> bool" where
  "js_falsy (JString s) = (s = [])"
| "js_falsy JUndefined = True"
| "js_falsy JOther = False"

text \<open>\<open>crypto.timingSafeEqual\<close> throws on buffers of different lengths (\<open>None\<close>) and
  otherwise tells whether the bytes are equal.\<close>

definition timingSafeEqual :: "string \<Rightarrow> string \<Rightarrow> bool option" where
  "timingSafeEqual bufA bufB =
     (if length bufA \<noteq> length bufB then None else Some (bufA = bufB))"

fun safeCompare :: "jsv \<Rightarrow> jsv \<Rightarrow> bool" where
  "safeCompare (JString a) (JString b) =
     (if length a \<noteq> length b
      then (let dummy = timingSafeEqual a (replicate (length a) (CHR 0x00)) in False)
      else (case timingSafeEqual a b of Some r \<Rightarrow> r | None \<Rightarrow> False))"
| "safeCompare a b = False"

text \<open>\<open>String.prototype.split\<close> with a one-character separator.\<close>

fun split_on :: "char \<Rightarrow> string \<Rightarrow> string list" where
  "split_on c [] = [[]]"
| "split_on c (x # xs) =
     (if x = c then [] # split_on c xs
      else (let r = split_on c xs in (x # hd r) # tl r))"

definition nth_opt :: "'a list \<Rightarrow> nat \<Rightarrow> 'a option" where
  "nth_opt xs i = (if i < length xs then Some (xs ! i) else None)"

text \<open>\<open>verifyPassword\<close>: the key derivation \<open>crypto.scrypt\<close> is a parameter (password and
  salt to the hex digest); it throws when an argument is not a string, and so does
  \<open>startsWith\<close> on a password store that is not one. \<open>None\<close> is a thrown exception.\<close>

definition verifyPassword :: "(string \<Rightarrow> string \<Rightarrow> string) \<Rightarrow> jsv \<Rightarrow> string \<Rightarrow> bool option" where
  "verifyPassword scrypt password storedHash =
     (if prefix ''scrypt:'' storedHash then
        (let parts = split_on (CHR '':'') storedHash;
             salt = nth_opt parts 1;
             hash = nth_opt parts 2
         in case (password, salt) of
              (JString pw, Some sl) \<Rightarrow>
                Some (safeCompare (JString (scrypt pw sl))
                        (case hash of Some h \<Rightarrow> JString h | None \<Rightarrow> JUndefined))
            | _ \<Rightarrow> None)
      else Some (safeCompare password (JString storedHash)))"

definition falsy_str :: "string option \<Rightarrow> bool" where
  "falsy_str v = (case v of None \<Rightarrow> True | Some s \<Rightarrow> s = [])"

definition csrfProtection :: "config \<Rightarrow> request \<Rightarrow> mw_result" where
  "csrfProtection cfg req =
     (if \<not> AUTH_REQUIRED cfg then Next None
      else if falsy_str (req_cookie_csrf req) \<or> falsy_str (req_header_csrf req) \<or>
              \<not> safeCompare (JString (the (req_cookie_csrf req))) (JString (the (req_header_csrf req)))
      then Respond 403 ''CSRF token validation failed.''
      else Next None)"

subsection \<open>Auth routes: login and invalidate-sessions\<close>

datatype login_result =
    LoginAuthOff
  | LoginError nat string
  | LoginOk jwt
  | LoginThrows

definition login :: "config \<Rightarrow> (string \<Rightarrow> string \<Rightarrow> string) \<Rightarrow> nat \<Rightarrow> int \<Rightarrow> jsv \<Rightarrow> jsv \<Rightarrow> login_result" where
  "login cfg scrypt version now user password =
     (if \<not> AUTH_REQUIRED cfg then LoginAuthOff
      else if js_falsy user \<or> js_falsy password
      then LoginError 400 ''Username and password are required.''
      else (let usernameMatch = safeCompare user (JString (AUTH_USERNAME cfg))
            in case verifyPassword scrypt password (storedPassword cfg) of
                 None \<Rightarrow> LoginThrows
               | Some passwordMatch \<Rightarrow>
                   if \<not> usernameMatch \<or> \<not> passwordMatch
                   then LoginError 401 ''Invalid credentials.''
                   else LoginOk (jwt_sign (case user of JString u \<Rightarrow> u | _ \<Rightarrow> [])
                                   (getSessionVersion version) (SESSION_SECRET cfg)
                                   (SESSION_TTL_SECONDS cfg) now)))"

text \<open>The route \<open>GET /auth/status\<close>, which \<open>requireAuth\<close> lets through: it answers
  with the pair of \<open>authRequired\<close> and \<open>authenticated\<close>.\<close>

definition auth_status :: "config \<Rightarrow> nat \<Rightarrow> int \<Rightarrow> request \<Rightarrow> bool \<times> bool" where
  "auth_status cfg version now req =
     (if \<not> AUTH_REQUIRED cfg then (False, True)
      else (True,
            \<not> falsy_token (extractToken req) \<and>
            (case jwt_verify (the (extractToken req)) (SESSION_SECRET cfg) now of
               Inr payload \<Rightarrow> \<not> sessionVersion payload \<noteq> getSessionVersion version
             | Inl err \<Rightarrow> False)))"

text \<open>The route \<open>POST /auth/invalidate-sessions\<close> behind the two middlewares that guard
  it: \<open>requireAuth\<close> (mounted on \<open>/api\<close>) and \<open>csrfProtection\<close>. The result is the new
  value of the counter and whether the handler ran the increment.\<close>

definition invalidate_sessions :: "config \<Rightarrow> nat \<Rightarrow> int \<Rightarrow> request \<Rightarrow> nat \<times> bool" where
  "invalidate_sessions cfg version now req =
     (case requireAuth cfg version now req of
        Respond st msg \<Rightarrow> (version, False)
      | Next u \<Rightarrow>
          (case csrfProtection cfg req of
             Respond st msg \<Rightarrow> (version, False)
           | Next u' \<Rightarrow>
               if \<not> AUTH_REQUIRED cfg then (version, False)
               else (incrementSessionVersion version, True)))"

text \<open>The server over time: the counter, and (as a ghost field) the tokens that \<open>login\<close>
  has handed out so far. Every other route leaves both alone.\<close>

record server =
  sv_version :: nat
  sv_issued :: "jwt list"

datatype event =
    EvLogin jsv jsv int
  | EvInvalidate request int
  | EvOther request int

definition initial_server :: server where
  "initial_server = \<lparr>sv_version = 1, sv_issued = []\<rparr>"

fun step :: "config \<Rightarrow> (string \<Rightarrow> string \<Rightarrow> string) \<Rightarrow> server \<Rightarrow> event \<Rightarrow> server" where
  "step cfg scrypt s (EvLogin user password now) =
     (case login cfg scrypt (sv_version s) now user password of
        LoginOk t \<Rightarrow> s\<lparr>sv_issued := t # sv_issued s\<rparr>
      | _ \<Rightarrow> s)"
| "step cfg scrypt s (EvInvalidate req now) =
     s\<lparr>sv_version := fst (invalidate_sessions cfg (sv_version s) now req)\<rparr>"
| "step cfg scrypt s (EvOther req now) = s"

definition run :: "config \<Rightarrow> (string \<Rightarrow> string \<Rightarrow> string) \<Rightarrow> server \<Rightarrow> event list \<Rightarrow> server" where
  "run cfg scrypt s evs = foldl (step cfg scrypt) s evs"

text \<open>A request that \<open>requireAuth\<close> does not wave through without looking at a token.\<close>

definition guarded :: "config \<Rightarrow> request \<Rightarrow> bool" where
  "guarded cfg req \<longleftrightarrow>
     AUTH_REQUIRED cfg \<and> req_method req \<noteq> ''OPTIONS'' \<and>
     req_path req \<notin> set open_paths \<and> \<not> share_public_path (req_path req)"

text \<open>Every token handed out so far embeds a version no greater than the counter.\<close>

definition issued_ok :: "server \<Rightarrow> bool" where
  "issued_ok s \<longleftrightarrow>
     (\<forall>t \<in> set (sv_issued s). \<exists>k p. t = Signed k p \<and> sessionVersion p \<le> sv_version s)"

text \<open>Concrete values used to exercise the definitions.\<close>

definition ex_cfg :: config where
  "ex_cfg = \<lparr>AUTH_REQUIRED = True, SESSION_SECRET = ''s3cret'', SESSION_TTL_SECONDS = 3600,
             AUTH_USERNAME = ''admin'', storedPassword = ''hunter2''\<rparr>"

definition ex_scrypt :: "string \<Rightarrow> string \<Rightarrow> string" where
  "ex_scrypt pw salt = pw @ salt"

definition ex_token :: "nat \<Rightarrow> int \<Rightarrow> jwt" where
  "ex_token v issuedAt = jwt_sign ''admin'' v ''s3cret'' 3600 issuedAt"

definition ex_request :: "string \<Rightarrow> string \<Rightarrow> auth_header \<Rightarrow> string option \<Rightarrow> request" where
  "ex_request m p h csrf =
     \<lparr>req_method = m, req_path = p, req_authorization = h, req_cookie_token = None,
      req_cookie_csrf = csrf, req_header_csrf = csrf\<rparr>"

section \<open>Path sandbox (utils/index.js)\<close>

text \<open>
  Node's POSIX \<open>path\<close> module is a library, not part of the repository. Its functions are
  modelled on the segments of a path: \<open>normalizeString\<close> walks the segments between
  slashes, drops empty ones and \<open>.\<close>, and lets \<open>..\<close> remove the segment before it (or
  keeps the \<open>..\<close> when nothing is left to remove and the path is relative).
\<close>

definition slash :: char where
  "slash = CHR ''/''"

fun join_segs :: "string list \<Rightarrow> string" where
  "join_segs [] = []"
| "join_segs [s] = s"
| "join_segs (s # t # ss) = s @ slash # join_segs (t # ss)"

definition normalize_step :: "bool \<Rightarrow> string list \<Rightarrow> string \<Rightarrow> string list" where
  "normalize_step allowAboveRoot res seg =
     (if seg = [] \<or> seg = ''.'' then res
      else if seg = ''..'' then
        (if res = [] \<or> last res = ''..''
         then (if allowAboveRoot then res @ [''..''] else res)
         else butlast res)
      else res @ [seg])"

definition normalizeString :: "string \<Rightarrow> bool \<Rightarrow> string" where
  "normalizeString p allowAboveRoot =
     join_segs (foldl (normalize_step allowAboveRoot) [] (split_on slash p))"

definition isAbsolute :: "string \<Rightarrow> bool" where
  "isAbsolute p \<longleftrightarrow> p \<noteq> [] \<and> hd p = slash"

definition path_normalize :: "string \<Rightarrow> string" where
  "path_normalize p =
     (if p = [] then ''.''
      else (let trailingSeparator = (last p = slash);
                q = normalizeString p (\<not> isAbsolute p)
            in if q = [] then (if isAbsolute p then ''/'' else if trailingSeparator then ''./'' else ''.'')
               else (let q' = (if trailingSeparator then q @ ''/'' else q)
                     in if isAbsolute p then slash # q' else q')))"

text \<open>\<open>path.resolve\<close> goes through its arguments from the right and then the working
  directory, until the path it builds is absolute.\<close>

fun resolve_loop :: "string list \<Rightarrow> string \<Rightarrow> string \<times> bool" where
  "resolve_loop [] resolvedPath = (resolvedPath, False)"
| "resolve_loop (p # ps) resolvedPath =
     (if p = [] then resolve_loop ps resolvedPath
      else if isAbsolute p then (p @ slash # resolvedPath, True)
      else resolve_loop ps (p @ slash # resolvedPath))"

definition path_resolve :: "string \<Rightarrow> string list \<Rightarrow> string" where
  "path_resolve cwd args =
     (let (resolvedPath, resolvedAbsolute) = resolve_loop (rev args @ [cwd]) [];
          q = normalizeString resolvedPath (\<not> resolvedAbsolute)
      in if resolvedAbsolute then slash # q
         else if q \<noteq> [] then q else ''.'')"

definition path_join :: "string list \<Rightarrow> string" where
  "path_join args =
     (let parts = filter (\<lambda>a. a \<noteq> []) args
      in if parts = [] then ''.'' else path_normalize (join_segs parts))"

fun dirname_scan :: "string \<Rightarrow> bool \<Rightarrow> nat option" where
  "dirname_scan [] matchedSlash = None"
| "dirname_scan (c # rest) matchedSlash =
     (if c = slash then (if \<not> matchedSlash then Some (length rest + 1) else dirname_scan rest matchedSlash)
      else dirname_scan rest False)"

definition path_dirname :: "string \<Rightarrow> string" where
  "path_dirname p =
     (if p = [] then ''.''
      else (case dirname_scan (rev (tl p)) True of
              None \<Rightarrow> (if isAbsolute p then ''/'' else ''.'')
            | Some e \<Rightarrow> (if isAbsolute p \<and> e = 1 then ''//'' else take e p)))"

text \<open>The root directory is fixed at start-up from the environment.\<close>

definition ROOT_DIRECTORY :: "string \<Rightarrow> string option \<Rightarrow> string" where
  "ROOT_DIRECTORY cwd env =
     path_resolve cwd [if falsy_str env then ''/data'' else the env]"

datatype fs_errno = ENOENT | EACCES | ELOOP | ENOTDIR

datatype sandbox_error =
    EscapesRoot
  | EscapesRootViaSymlink
  | FsFailure fs_errno

text \<open>\<open>resolveSafePath rootDir cwd relativePath\<close>; an absent argument is \<open>None\<close>.\<close>

definition resolveSafePath :: "string \<Rightarrow> string \<Rightarrow> string option \<Rightarrow> sandbox_error + string" where
  "resolveSafePath rootDir cwd relativePath =
     (let normalized = path_normalize (if falsy_str relativePath then ''.'' else the relativePath);
          resolved = path_resolve cwd [rootDir, normalized]
      in if \<not> prefix rootDir resolved then Inl EscapesRoot else Inr resolved)"

text \<open>The file system enters through \<open>fs.promises.realpath\<close>, a parameter here: it gives
  the canonical path of an existing path, or fails.\<close>

definition resolveSafePathWithSymlinkCheck ::
  "(string \<Rightarrow> fs_errno + string) \<Rightarrow> string \<Rightarrow> string \<Rightarrow> string option \<Rightarrow> sandbox_error + string" where
  "resolveSafePathWithSymlinkCheck realpath rootDir cwd relativePath =
     (case resolveSafePath rootDir cwd relativePath of
        Inl e \<Rightarrow> Inl e
      | Inr resolved \<Rightarrow>
          (case realpath resolved of
             Inl err \<Rightarrow>
               if err = ENOENT then
                 (let parentPath = path_dirname resolved
                  in case realpath parentPath of
                       Inl err2 \<Rightarrow> Inl (FsFailure err2)
                     | Inr parentReal \<Rightarrow>
                         if \<not> prefix rootDir parentReal then Inl EscapesRootViaSymlink
                         else Inr resolved)
               else Inl (FsFailure err)
           | Inr realPath \<Rightarrow>
               if \<not> prefix rootDir realPath then Inl EscapesRootViaSymlink
               else Inr realPath))"

text \<open>What the specification means by a path inside a boundary: the boundary itself or a
  descendant of it, that is, the boundary's segments are the first segments of the path.\<close>

definition segments :: "string \<Rightarrow> string list" where
  "segments p = filter (\<lambda>s. s \<noteq> []) (split_on slash p)"

definition within_boundary :: "string \<Rightarrow> string \<Rightarrow> bool" where
  "within_boundary rootDir p \<longleftrightarrow> isAbsolute p \<and> prefix (segments rootDir) (segments p)"

text \<open>Two small file systems: one without symbolic links, where every path is its own
  canonical path, and one where \<open>/data/link\<close> is a symbolic link to \<open>/data2/secret\<close>.\<close>

definition ex_realpath_plain :: "string \<Rightarrow> fs_errno + string" where
  "ex_realpath_plain p = Inr p"

definition ex_realpath_link :: "string \<Rightarrow> fs_errno + string" where
  "ex_realpath_link p = (if p = ''/data/link'' then Inr ''/data2/secret'' else Inr p)"

section \<open>Share registry (routes/shares.js)\<close>

record share =
  sh_id :: string
  sh_accessCode :: string
  sh_path :: string
  sh_resolvedPath :: string
  sh_isDirectory :: bool
  sh_name :: string
  sh_createdAt :: int
  sh_expiresAt :: int
  sh_accessCount :: nat
  sh_accessTokens :: "string set option"

type_synonym share_store = "string \<rightharpoonup> share"

text \<open>\<open>generateAccessCode\<close>: six characters, each picked by
  \<open>Math.floor(Math.random() * chars.length)\<close>; the six values of \<open>Math.random()\<close> are the
  argument. \<open>charAt\<close> gives the empty string outside the string.\<close>

definition code_chars :: string where
  "code_chars = ''ABCDEFGHJKLMNPQRSTUVWXYZ23456789''"

definition charAt :: "string \<Rightarrow> int \<Rightarrow> string" where
  "charAt s i = (if 0 \<le> i \<and> nat i < length s then [s ! nat i] else [])"

definition generateAccessCode :: "(nat \<Rightarrow> real) \<Rightarrow> string" where
  "generateAccessCode random =
     foldl (\<lambda>code i. code @ charAt code_chars \<lfloor>random i * real (length code_chars)\<rfloor>) [] [0..<6]"

text \<open>Upper-casing on the ASCII range, where JavaScript maps \<open>a\<close>..\<open>z\<close> to \<open>A\<close>..\<open>Z\<close> and
  leaves every other character alone. Strings are their UTF-8 bytes; an ASCII string is
  one whose bytes are all below 128.\<close>

definition upper_char :: "char \<Rightarrow> char" where
  "upper_char c =
     (let n = (of_char c :: nat) in if 97 \<le> n \<and> n \<le> 122 then char_of (n - 32) else c)"

definition ascii :: "string \<Rightarrow> bool" where
  "ascii s \<longleftrightarrow> (\<forall>c \<in> set s. (of_char c :: nat) < 128)"

definition cleanupExpiredShares :: "int \<Rightarrow> share_store \<Rightarrow> share_store" where
  "cleanupExpiredShares now shares =
     (\<lambda>id. case shares id of
              None \<Rightarrow> None
            | Some share \<Rightarrow> if sh_expiresAt share < now then None else Some share)"

datatype 'a reply = Fail nat string | Success 'a

record verify_ok =
  vo_accessToken :: string
  vo_name :: string
  vo_isDirectory :: bool
  vo_expiresAt :: int

text \<open>\<open>GET /:shareId/verify\<close>. Besides the store, the handler reads the clock once
  (\<open>now\<close>), draws a fresh token (\<open>newToken\<close>) and asks the file system whether the shared
  path still exists (\<open>stat_ok\<close>). \<open>String.prototype.toUpperCase\<close> belongs to the JavaScript
  runtime and follows the Unicode case mappings; it is the parameter \<open>toUpperCase\<close>. The
  handler returns the reply and the store it leaves behind.\<close>

definition verify_share ::
  "(string \<Rightarrow> string) \<Rightarrow> (string \<Rightarrow> bool) \<Rightarrow> string \<Rightarrow> int \<Rightarrow> share_store \<Rightarrow> string
     \<Rightarrow> string option \<Rightarrow> verify_ok reply \<times> share_store" where
  "verify_share toUpperCase stat_ok newToken now shares shareId code =
     (if falsy_str code then (Fail 400 ''Access code is required.'', shares)
      else (case shares shareId of
              None \<Rightarrow> (Fail 404 ''Share not found or expired.'', shares)
            | Some share \<Rightarrow>
                if sh_expiresAt share < now
                then (Fail 404 ''Share has expired.'', shares(shareId := None))
                else (let codeBuffer = toUpperCase (the code);
                          storedBuffer = sh_accessCode share
                      in if length codeBuffer \<noteq> length storedBuffer \<or>
                            timingSafeEqual codeBuffer storedBuffer \<noteq> Some True
                         then (Fail 403 ''Invalid access code.'', shares)
                         else (let share' = share
                                     \<lparr>sh_accessTokens :=
                                        Some (insert newToken
                                               (case sh_accessTokens share of None \<Rightarrow> {} | Some ts \<Rightarrow> ts)),
                                      sh_accessCount := sh_accessCount share + 1\<rparr>;
                                   shares' = shares(shareId \<mapsto> share')
                               in if \<not> stat_ok (sh_resolvedPath share')
                                  then (Fail 404 ''Shared content no longer exists.'', shares')
                                  else (Success \<lparr>vo_accessToken = newToken, vo_name = sh_name share',
                                                 vo_isDirectory = sh_isDirectory share',
                                                 vo_expiresAt = sh_expiresAt share'\<rparr>, shares')))))"

text \<open>The middleware \<open>verifyShareAccess\<close>; the token is the \<open>x-share-token\<close> header.\<close>

definition verifyShareAccess ::
  "int \<Rightarrow> share_store \<Rightarrow> string \<Rightarrow> string option \<Rightarrow> share reply \<times> share_store" where
  "verifyShareAccess now shares shareId accessToken =
     (if falsy_str accessToken then (Fail 401 ''Share access token required.'', shares)
      else (case shares shareId of
              None \<Rightarrow> (Fail 404 ''Share not found or expired.'', shares)
            | Some share \<Rightarrow>
                if sh_expiresAt share < now
                then (Fail 404 ''Share has expired.'', shares(shareId := None))
                else if (case sh_accessTokens share of
                           None \<Rightarrow> True
                         | Some ts \<Rightarrow> the accessToken \<notin> ts)
                then (Fail 403 ''Invalid share access token.'', shares)
                else (Success share, shares)))"

text \<open>The target of \<open>GET /:shareId/content\<close> and of \<open>GET /:shareId/download\<close>: both handlers
  compute it by the same lines, from the share and the \<open>path\<close> query parameter.\<close>

definition share_target :: "share \<Rightarrow> string option \<Rightarrow> string reply" where
  "share_target share qpath =
     (let subPath = (if falsy_str qpath then ''.'' else the qpath)
      in if sh_isDirectory share then
           (let normalizedSubPath = path_normalize subPath
            in if prefix ''..'' normalizedSubPath
               then Fail 400 ''Cannot access paths outside shared directory.''
               else (let targetPath = path_join [sh_resolvedPath share, normalizedSubPath]
                     in if \<not> prefix (sh_resolvedPath share) targetPath
                        then Fail 400 ''Cannot access paths outside shared directory.''
                        else Success targetPath))
         else Success (sh_resolvedPath share))"

text \<open>An access behind the middleware. The handlers hand \<open>targetPath\<close> to \<open>fsp.stat\<close>,
  \<open>fsp.readdir\<close>, \<open>fsp.readFile\<close> and \<open>fs.createReadStream\<close>, which follow symbolic links:
  what is read is the canonical path of \<open>targetPath\<close>, or the call fails.\<close>

definition share_access ::
  "(string \<Rightarrow> fs_errno + string) \<Rightarrow> int \<Rightarrow> share_store \<Rightarrow> string \<Rightarrow> string option \<Rightarrow> string option
     \<Rightarrow> (fs_errno + string) reply \<times> share_store" where
  "share_access realpath now shares shareId accessToken qpath =
     (case verifyShareAccess now shares shareId accessToken of
        (Fail st msg, shares') \<Rightarrow> (Fail st msg, shares')
      | (Success share, shares') \<Rightarrow>
          (case share_target share qpath of
             Fail st msg \<Rightarrow> (Fail st msg, shares')
           | Success targetPath \<Rightarrow> (Success (realpath targetPath), shares')))"

text \<open>The specification's case variants of a code: the same length, and position by
  position the same character up to the case of a letter.\<close>

definition same_letter :: "char \<Rightarrow> char \<Rightarrow> bool" where
  "same_letter c d \<longleftrightarrow>
     c = d \<or> (97 \<le> (of_char c :: nat) \<and> (of_char c :: nat) \<le> 122 \<and> (of_char d :: nat) + 32 = of_char c)
           \<or> (97 \<le> (of_char d :: nat) \<and> (of_char d :: nat) \<le> 122 \<and> (of_char c :: nat) + 32 = of_char d)"

definition case_variant :: "string \<Rightarrow> string \<Rightarrow> bool" where
  "case_variant s t \<longleftrightarrow> list_all2 same_letter s t"

text \<open>A share of the directory \<open>/data/docs\<close>, and a file system in which
  \<open>/data/docs/link\<close> is a symbolic link to \<open>/data/private\<close>.\<close>

definition ex_share :: share where
  "ex_share = \<lparr>sh_id = ''ab12'', sh_accessCode = ''K7QZ2M'', sh_path = ''docs'',
               sh_resolvedPath = ''/data/docs'', sh_isDirectory = True, sh_name = ''docs'',
               sh_createdAt = 1000, sh_expiresAt = 3601000, sh_accessCount = 1,
               sh_accessTokens = Some {''tok''}\<rparr>"

definition ex_store :: share_store where
  "ex_store = [''ab12'' \<mapsto> ex_share]"

definition ex_realpath_docs :: "string \<Rightarrow> fs_errno + string" where
  "ex_realpath_docs p =
     (if p = ''/data/docs/link/secret.txt'' then Inr ''/data/private/secret.txt'' else Inr p)"

text \<open>An upper-casing that is JavaScript's on every string made of ASCII characters, of
  U+017F (long s, bytes C5 BF, upper-cased to \<open>S\<close>) and of U+00DF (sharp s, bytes C3 9F,
  upper-cased to \<open>SS\<close>).\<close>

fun ex_toUpperCase :: "string \<Rightarrow> string" where
  "ex_toUpperCase [] = []"
| "ex_toUpperCase [c] = [upper_char c]"
| "ex_toUpperCase (c # d # s) =
     (if c = CHR 0xC5 \<and> d = CHR 0xBF then CHR ''S'' # ex_toUpperCase s
      else if c = CHR 0xC3 \<and> d = CHR 0x9F then CHR ''S'' # CHR ''S'' # ex_toUpperCase s
      else upper_char c # ex_toUpperCase (d # s))"

definition ex_random :: "nat \<Rightarrow> real" where
  "ex_random i =
     (if i = 0 then 9 / 32 else if i = 1 then 29 / 32 else if i = 2 then 14 / 32
      else if i = 3 then 23 / 32 else if i = 4 then 24 / 32 else 11 / 32)"

text \<open>Two more shares, whose codes \<open>S7QZ2M\<close> and \<open>SS7QZ2\<close> are generated as well.\<close>

definition ex_random_s :: "nat \<Rightarrow> real" where
  "ex_random_s i =
     (if i = 0 then 16 / 32 else if i = 1 then 29 / 32 else if i = 2 then 14 / 32
      else if i = 3 then 23 / 32 else if i = 4 then 24 / 32 else 11 / 32)"

definition ex_store_s :: share_store where
  "ex_store_s = [''cd34'' \<mapsto> ex_share\<lparr>sh_id := ''cd34'', sh_accessCode := ''S7QZ2M''\<rparr>]"

definition ex_random_ss :: "nat \<Rightarrow> real" where
  "ex_random_ss i =
     (if i < 2 then 16 / 32 else if i = 2 then 29 / 32 else if i = 3 then 14 / 32
      else if i = 4 then 23 / 32 else 24 / 32)"

definition ex_store_ss :: share_store where
  "ex_store_ss = [''ef56'' \<mapsto> ex_share\<lparr>sh_id := ''ef56'', sh_accessCode := ''SS7QZ2''\<rparr>]"

text \<open>The anonymous operations on the store over time, each with the clock value it reads,
  and the shares that a sequence of them serves: the ids for which a verification or an
  access succeeded.\<close>

datatype share_op =
    OpVerify string "string option" string int
  | OpAccess string "string option" "string option" int
  | OpCleanup int
  | OpDelete string

fun op_time :: "share_op \<Rightarrow> int option" where
  "op_time (OpVerify shareId code newToken now) = Some now"
| "op_time (OpAccess shareId accessToken qpath now) = Some now"
| "op_time (OpCleanup now) = Some now"
| "op_time (OpDelete shareId) = None"

fun succeeded :: "'a reply \<Rightarrow> bool" where
  "succeeded (Success x) = True"
| "succeeded (Fail st msg) = False"

fun share_step ::
  "(string \<Rightarrow> string) \<Rightarrow> (string \<Rightarrow> bool) \<Rightarrow> (string \<Rightarrow> fs_errno + string) \<Rightarrow> share_store
     \<Rightarrow> share_op \<Rightarrow> string option \<times> share_store" where
  "share_step toUpperCase stat_ok realpath shares (OpVerify shareId code newToken now) =
     (let (r, shares') = verify_share toUpperCase stat_ok newToken now shares shareId code
      in (if succeeded r then Some shareId else None, shares'))"
| "share_step toUpperCase stat_ok realpath shares (OpAccess shareId accessToken qpath now) =
     (let (r, shares') = share_access realpath now shares shareId accessToken qpath
      in (if succeeded r then Some shareId else None, shares'))"
| "share_step toUpperCase stat_ok realpath shares (OpCleanup now) = (None, cleanupExpiredShares now shares)"
| "share_step toUpperCase stat_ok realpath shares (OpDelete shareId) = (None, shares(shareId := None))"

fun served ::
  "(string \<Rightarrow> string) \<Rightarrow> (string \<Rightarrow> bool) \<Rightarrow> (string \<Rightarrow> fs_errno + string) \<Rightarrow> share_store
     \<Rightarrow> share_op list \<Rightarrow> string list" where
  "served toUpperCase stat_ok realpath shares [] = []"
| "served toUpperCase stat_ok realpath shares (oper # ops) =
     (let (r, shares') = share_step toUpperCase stat_ok realpath shares oper
      in (case r of None \<Rightarrow> [] | Some i \<Rightarrow> [i]) @ served toUpperCase stat_ok realpath shares' ops)"

text \<open>A share that is absent from the store or has expired by the time \<open>now\<close>.\<close>

definition dead :: "int \<Rightarrow> share_store \<Rightarrow> string \<Rightarrow> bool" where
  "dead now shares shareId \<longleftrightarrow> (case shares shareId of None \<Rightarrow> True | Some s \<Rightarrow> sh_expiresAt s < now)"

section \<open>Search engine (routes/search.js)\<close>

text \<open>
  What \<open>readdir\<close> and \<open>stat\<close> show of a directory tree. A \<open>FileNode\<close> is any entry whose
  \<open>isDirectory()\<close> is false; the \<open>fstat option\<close> is the outcome of \<open>fsp.stat\<close> on the entry
  (\<open>None\<close> when it throws), and the \<open>node list option\<close> of a directory is the outcome of
  \<open>fsp.readdir\<close> on it (\<open>None\<close> when it throws).
\<close>

record fstat =
  st_size :: nat
  st_mtimeMs :: int

datatype node =
    FileNode string "fstat option"
  | DirNode string "fstat option" "node list option"

fun node_name :: "node \<Rightarrow> string" where
  "node_name (FileNode n st) = n"
| "node_name (DirNode n st ch) = n"

fun node_stat :: "node \<Rightarrow> fstat option" where
  "node_stat (FileNode n st) = st"
| "node_stat (DirNode n st ch) = st"

fun isDirectory :: "node \<Rightarrow> bool" where
  "isDirectory (FileNode n st) = False"
| "isDirectory (DirNode n st ch) = True"

fun node_children :: "node \<Rightarrow> node list option" where
  "node_children (FileNode n st) = None"
| "node_children (DirNode n st ch) = ch"

record entry =
  e_name :: string
  e_path :: string
  e_isDirectory :: bool
  e_size :: nat
  e_modified :: int
  e_mimeType :: "string option"

text \<open>The collaborators of a search: the clock (\<open>se_now k\<close> is what the \<open>k\<close>-th call of
  \<open>Date.now()\<close> of the request returns), \<open>path.relative\<close>, \<open>mime.lookup\<close>,
  \<open>localeCompare\<close>, the root directory, and the string functions of the runtime
  \<open>String.prototype.trim\<close> and \<open>String.prototype.toLowerCase\<close>, which work on the whole
  of Unicode and are left to the runtime.\<close>

record search_env =
  se_now :: "nat \<Rightarrow> int"
  se_relative :: "string \<Rightarrow> string \<Rightarrow> string"
  se_mime :: "string \<Rightarrow> string option"
  se_localeCompare :: "string \<Rightarrow> string \<Rightarrow> int"
  se_root :: string
  se_trim :: "string \<Rightarrow> string"
  se_toLowerCase :: "string \<Rightarrow> string"

text \<open>The mutable part of a search: the accumulator \<open>results\<close>, the flag of
  \<open>searchState\<close>, and how many times the clock has been read.\<close>

record sstate =
  results :: "entry list"
  timedOut :: bool
  ticks :: nat

definition Date_now :: "search_env \<Rightarrow> sstate \<Rightarrow> int \<times> sstate" where
  "Date_now env s = (se_now env (ticks s), s\<lparr>ticks := ticks s + 1\<rparr>)"

definition relativeFromRoot :: "search_env \<Rightarrow> string \<Rightarrow> string" where
  "relativeFromRoot env absolutePath =
     (let r = se_relative env (se_root env) absolutePath in if r = [] then ''.'' else r)"

definition str_includes :: "string \<Rightarrow> string \<Rightarrow> bool" where
  "str_includes s needle \<longleftrightarrow> sublist needle s"

definition file_entry :: "search_env \<Rightarrow> string \<Rightarrow> node \<Rightarrow> fstat \<Rightarrow> entry" where
  "file_entry env dirPath dirent stats =
     (let entryPath = path_join [dirPath, node_name dirent]
      in \<lparr>e_name = node_name dirent, e_path = relativeFromRoot env entryPath,
          e_isDirectory = False, e_size = st_size stats, e_modified = st_mtimeMs stats,
          e_mimeType = se_mime env entryPath\<rparr>)"

definition dir_entry :: "search_env \<Rightarrow> string \<Rightarrow> node \<Rightarrow> fstat \<Rightarrow> entry" where
  "dir_entry env dirPath dirent stats =
     (let entryPath = path_join [dirPath, node_name dirent]
      in \<lparr>e_name = node_name dirent, e_path = relativeFromRoot env entryPath,
          e_isDirectory = True, e_size = st_size stats, e_modified = st_mtimeMs stats,
          e_mimeType = None\<rparr>)"

definition push :: "entry \<Rightarrow> sstate \<Rightarrow> sstate" where
  "push e s = s\<lparr>results := results s @ [e]\<rparr>"

text \<open>The loop over the files of one directory.\<close>

fun searchFiles ::
  "search_env \<Rightarrow> string \<Rightarrow> node list \<Rightarrow> string \<Rightarrow> int \<Rightarrow> int \<Rightarrow> int \<Rightarrow> sstate \<Rightarrow> sstate" where
  "searchFiles env dirPath [] lowerQuery maxResults startTime timeout s = s"
| "searchFiles env dirPath (dirent # rest) lowerQuery maxResults startTime timeout s =
     (if int (length (results s)) \<ge> maxResults then s
      else (let (t, s1) = Date_now env s
            in if t - startTime > timeout then s1\<lparr>timedOut := True\<rparr>
               else if str_includes (se_toLowerCase env (node_name dirent)) lowerQuery
               then (case node_stat dirent of
                       Some stats \<Rightarrow>
                         searchFiles env dirPath rest lowerQuery maxResults startTime timeout
                           (push (file_entry env dirPath dirent stats) s1)
                     | None \<Rightarrow>
                         searchFiles env dirPath rest lowerQuery maxResults startTime timeout s1)
               else searchFiles env dirPath rest lowerQuery maxResults startTime timeout s1))"

text \<open>\<open>searchDirectory\<close> with its loop over the subdirectories. The first argument after
  the path is what \<open>fsp.readdir\<close> gives for it.\<close>

function (sequential)
  searchDirectory ::
    "search_env \<Rightarrow> string \<Rightarrow> node list option \<Rightarrow> string \<Rightarrow> int \<Rightarrow> int \<Rightarrow> int \<Rightarrow> sstate \<Rightarrow> sstate"
  and searchDirs ::
    "search_env \<Rightarrow> string \<Rightarrow> node list \<Rightarrow> string \<Rightarrow> int \<Rightarrow> int \<Rightarrow> int \<Rightarrow> sstate \<Rightarrow> sstate"
where
  "searchDirectory env dirPath readdir query maxResults startTime timeout s =
     (if int (length (results s)) \<ge> maxResults then s
      else (let (t, s1) = Date_now env s
            in if t - startTime > timeout then s1\<lparr>timedOut := True\<rparr>
               else (case readdir of
                       None \<Rightarrow> s1
                     | Some dirents \<Rightarrow>
                         (let lowerQuery = se_toLowerCase env query;
                              files = filter (\<lambda>d. \<not> isDirectory d) dirents;
                              directories = filter isDirectory dirents;
                              s2 = searchFiles env dirPath files lowerQuery maxResults startTime timeout s1
                          in searchDirs env dirPath directories query maxResults startTime timeout s2))))"
| "searchDirs env dirPath [] query maxResults startTime timeout s = s"
| "searchDirs env dirPath (dirent # rest) query maxResults startTime timeout s =
     (if int (length (results s)) \<ge> maxResults then s
      else (let (t, s1) = Date_now env s
            in if t - startTime > timeout then s1\<lparr>timedOut := True\<rparr>
               else (let entryPath = path_join [dirPath, node_name dirent];
                         s2 = (if str_includes (se_toLowerCase env (node_name dirent)) (se_toLowerCase env query)
                               then (case node_stat dirent of
                                       Some stats \<Rightarrow> push (dir_entry env dirPath dirent stats) s1
                                     | None \<Rightarrow> s1)
                               else s1);
                         s3 = searchDirectory env entryPath (node_children dirent) query
                                maxResults startTime timeout s2
                     in searchDirs env dirPath rest query maxResults startTime timeout s3)))"
  by pat_completeness auto
termination
proof (relation "measure (\<lambda>x. case x of
          Inl (env, dirPath, readdir, r) \<Rightarrow> 2 * size_option (size_list size) readdir
        | Inr (env, dirPath, dirents, r) \<Rightarrow> 2 * size_list size dirents + 1)", goal_cases)
  case 1
  show ?case by simp
next
  case (2 env dirPath readdir query maxResults startTime timeout s x xa y x2 xb xc xd xe)
  have "size_list size (filter isDirectory x2) \<le> size_list size x2"
    by (induction x2) auto
  with 2 show ?case by simp
next
  case (3 env dirPath dirent rest query maxResults startTime timeout s x xa y xb xc)
  show ?case by (cases dirent) simp_all
next
  case (4 env dirPath dirent rest query maxResults startTime timeout s x xa y xb xc xd)
  show ?case by simp
qed

subsection \<open>The handler of \<open>GET /api/search\<close>\<close>

text \<open>The query parameters; \<open>q_limit\<close> and \<open>q_timeout\<close> are what \<open>parseInt(_, 10)\<close> makes
  of the parameter (\<open>None\<close> for \<open>NaN\<close>).\<close>

record search_request =
  q_q :: "string option"
  q_path :: "string option"
  q_limit :: "int option"
  q_timeout :: "int option"

record filesystem =
  fs_realpath :: "string \<Rightarrow> fs_errno + string"
  fs_stat :: "string \<Rightarrow> fs_errno + node"
  fs_cwd :: string

record search_response =
  sr_query :: string
  sr_path :: string
  sr_results :: "entry list"
  sr_resultCount :: nat
  sr_truncated :: bool
  sr_timedOut :: bool
  sr_durationMs :: int

text \<open>\<open>parseInt(x, 10) || dflt\<close>: \<open>NaN\<close> and \<open>0\<close> are falsy.\<close>

definition or_default :: "int option \<Rightarrow> int \<Rightarrow> int" where
  "or_default v dflt = (case v of None \<Rightarrow> dflt | Some n \<Rightarrow> if n = 0 then dflt else n)"

definition clamp_limit :: "int option \<Rightarrow> int" where
  "clamp_limit v = min (or_default v 100) 500"

definition clamp_timeout :: "int option \<Rightarrow> int" where
  "clamp_timeout v = min (or_default v 10000) 30000"

definition compare_entries :: "search_env \<Rightarrow> entry \<Rightarrow> entry \<Rightarrow> int" where
  "compare_entries env a b =
     (if e_isDirectory a \<and> \<not> e_isDirectory b then - 1
      else if \<not> e_isDirectory a \<and> e_isDirectory b then 1
      else se_localeCompare env (e_name a) (e_name b))"

text \<open>\<open>Array.prototype.sort\<close> is stable; it is modelled by insertion from the left, each
  element going behind the elements it does not sort before.\<close>

fun insort_cmp :: "('a \<Rightarrow> 'a \<Rightarrow> int) \<Rightarrow> 'a \<Rightarrow> 'a list \<Rightarrow> 'a list" where
  "insort_cmp cmp x [] = [x]"
| "insort_cmp cmp x (y # ys) = (if cmp x y < 0 then x # y # ys else y # insort_cmp cmp x ys)"

definition js_sort :: "('a \<Rightarrow> 'a \<Rightarrow> int) \<Rightarrow> 'a list \<Rightarrow> 'a list" where
  "js_sort cmp xs = foldl (\<lambda>acc x. insort_cmp cmp x acc) [] xs"

text \<open>The error-handling middleware of server.js for what the handler passes to \<open>next\<close>.\<close>

fun error_middleware :: "sandbox_error \<Rightarrow> 'a reply" where
  "error_middleware EscapesRoot = Fail 400 ''Path escapes the configured root directory.''"
| "error_middleware EscapesRootViaSymlink =
     Fail 400 ''Path escapes the configured root directory via symlink.''"
| "error_middleware (FsFailure ENOENT) = Fail 404 ''Path not found.''"
| "error_middleware (FsFailure e) = Fail 500 ''Internal server error.''"

definition initial_sstate :: sstate where
  "initial_sstate = \<lparr>results = [], timedOut = False, ticks = 0\<rparr>"

text \<open>The traversal as the handler starts it: the clock has been read once, for
  \<open>startTime\<close>.\<close>

definition search_run :: "search_env \<Rightarrow> string \<Rightarrow> node \<Rightarrow> string \<Rightarrow> int \<Rightarrow> int \<Rightarrow> sstate" where
  "search_run env targetPath nd query limit timeout =
     (let (startTime, s0) = Date_now env initial_sstate
      in searchDirectory env targetPath (node_children nd) query limit startTime timeout s0)"

definition search_handler :: "search_env \<Rightarrow> filesystem \<Rightarrow> search_request \<Rightarrow> search_response reply" where
  "search_handler env fs req =
     (let startTime = fst (Date_now env initial_sstate);
          query = q_q req;
          searchPath = (if falsy_str (q_path req) then ''.'' else the (q_path req));
          limit = clamp_limit (q_limit req);
          timeout = clamp_timeout (q_timeout req)
      in if falsy_str query \<or> se_trim env (the query) = []
         then Fail 400 (''Query parameter '' @ [CHR 0x22] @ ''q'' @ [CHR 0x22] @ '' is required.'')
         else (case resolveSafePathWithSymlinkCheck (fs_realpath fs) (se_root env) (fs_cwd fs)
                      (Some searchPath) of
                 Inl e \<Rightarrow> error_middleware e
               | Inr targetPath \<Rightarrow>
                   (case fs_stat fs targetPath of
                      Inl err \<Rightarrow> error_middleware (FsFailure err)
                    | Inr nd \<Rightarrow>
                        if \<not> isDirectory nd then Fail 400 ''Search path must be a directory.''
                        else (let s1 = search_run env targetPath nd (se_trim env (the query)) limit timeout;
                                  sorted = js_sort (compare_entries env) (results s1);
                                  durationMs = fst (Date_now env s1) - startTime;
                                  truncated = (int (length sorted) \<ge> limit)
                              in Success \<lparr>sr_query = the query,
                                          sr_path = relativeFromRoot env targetPath,
                                          sr_results = sorted,
                                          sr_resultCount = length sorted,
                                          sr_truncated = truncated,
                                          sr_timedOut = timedOut s1,
                                          sr_durationMs = durationMs\<rparr>))))"

subsection \<open>The matching entries of a tree\<close>

text \<open>What the specification calls the matching entries: every entry whose name
  contains the query, case-insensitively, and whose \<open>stat\<close> succeeds, in the order of the
  traversal (the files of a directory, then each subdirectory followed by its content),
  below every directory that can be read.\<close>

definition file_matches :: "search_env \<Rightarrow> string \<Rightarrow> node list \<Rightarrow> string \<Rightarrow> entry list" where
  "file_matches env dirPath files lowerQuery =
     concat (map (\<lambda>d. if str_includes (se_toLowerCase env (node_name d)) lowerQuery
                       then (case node_stat d of Some stats \<Rightarrow> [file_entry env dirPath d stats] | None \<Rightarrow> [])
                       else []) files)"

function (sequential)
  all_matches :: "search_env \<Rightarrow> string \<Rightarrow> node list option \<Rightarrow> string \<Rightarrow> entry list"
  and dir_matches :: "search_env \<Rightarrow> string \<Rightarrow> node list \<Rightarrow> string \<Rightarrow> entry list"
where
  "all_matches env dirPath None query = []"
| "all_matches env dirPath (Some dirents) query =
     file_matches env dirPath (filter (\<lambda>d. \<not> isDirectory d) dirents) (se_toLowerCase env query)
     @ dir_matches env dirPath (filter isDirectory dirents) query"
| "dir_matches env dirPath [] query = []"
| "dir_matches env dirPath (d # rest) query =
     (if str_includes (se_toLowerCase env (node_name d)) (se_toLowerCase env query)
      then (case node_stat d of Some stats \<Rightarrow> [dir_entry env dirPath d stats] | None \<Rightarrow> [])
      else [])
     @ all_matches env (path_join [dirPath, node_name d]) (node_children d) query
     @ dir_matches env dirPath rest query"
  by pat_completeness auto
termination
proof (relation "measure (\<lambda>x. case x of
          Inl (env, dirPath, readdir, q) \<Rightarrow> 2 * size_option (size_list size) readdir
        | Inr (env, dirPath, dirents, q) \<Rightarrow> 2 * size_list size dirents + 1)", goal_cases)
  case 1
  show ?case by simp
next
  case (2 env dirPath dirents query)
  have "size_list size (filter isDirectory dirents) \<le> size_list size dirents"
    by (induction dirents) auto
  then show ?case by simp
next
  case (3 env dirPath d rest query)
  show ?case by (cases d) simp_all
next
  case (4 env dirPath d rest query)
  show ?case by simp
qed

text \<open>The first \<open>n\<close> entries with what was already collected counted in.\<close>

definition cap :: "nat \<Rightarrow> 'a list \<Rightarrow> 'a list \<Rightarrow> 'a list" where
  "cap n r m = r @ take (n - length r) m"

text \<open>A clock that does not run backwards, and a state whose flag, if set, was set by a
  reading of the clock that exceeded the timeout.\<close>

definition clock_mono :: "search_env \<Rightarrow> bool" where
  "clock_mono env \<longleftrightarrow> (\<forall>i j. i \<le> j \<longrightarrow> se_now env i \<le> se_now env j)"

definition seen_timeout :: "search_env \<Rightarrow> int \<Rightarrow> int \<Rightarrow> sstate \<Rightarrow> bool" where
  "seen_timeout env startTime timeout s \<longleftrightarrow>
     (timedOut s \<longrightarrow> (\<exists>i. i < ticks s \<and> se_now env i - startTime > timeout))"

text \<open>What one stretch of the traversal, from state \<open>s\<close> to state \<open>s'\<close>, owes to the
  entries \<open>m\<close> it walks over: the clock is only read forward; the flag is set exactly when
  one of the readings of the stretch exceeds the timeout; the accumulator does not grow
  beyond the limit \<open>n\<close>; when the flag stays clear, the accumulator has taken the
  entries of \<open>m\<close> in order, up to the limit; and with a clock that does not run
  backwards, nothing is collected once the timeout has been seen, so that what is
  collected is always an initial segment of \<open>m\<close>.\<close>

definition stretch ::
  "search_env \<Rightarrow> int \<Rightarrow> int \<Rightarrow> nat \<Rightarrow> entry list \<Rightarrow> sstate \<Rightarrow> sstate \<Rightarrow> bool" where
  "stretch env startTime timeout n m s s' \<longleftrightarrow>
     ticks s \<le> ticks s' \<and>
     (timedOut s' \<longleftrightarrow>
        timedOut s \<or> (\<exists>j. ticks s \<le> j \<and> j < ticks s' \<and> se_now env j - startTime > timeout)) \<and>
     length (results s') \<le> max (length (results s)) n \<and>
     (\<not> timedOut s' \<longrightarrow> results s' = cap n (results s) m) \<and>
     (clock_mono env \<and> timedOut s \<and> seen_timeout env startTime timeout s
        \<longrightarrow> results s' = results s) \<and>
     (clock_mono env \<and> seen_timeout env startTime timeout s
        \<longrightarrow> (\<exists>k. results s' = results s @ take k m))"

subsection \<open>The entry boundaries of a traversal\<close>

text \<open>The boundaries at which the traversal tests its two stopping conditions, in the
  order in which it comes to them: the start of a directory, then each of its files, then
  each of its subdirectories followed by the boundaries of that subdirectory. With each
  boundary goes the entry that is collected when the traversal passes it, if there is
  one. A directory that cannot be read has the boundary of its start only.\<close>

definition file_events :: "search_env \<Rightarrow> string \<Rightarrow> node list \<Rightarrow> string \<Rightarrow> entry option list" where
  "file_events env dirPath files lowerQuery =
     map (\<lambda>d. if str_includes (se_toLowerCase env (node_name d)) lowerQuery
              then (case node_stat d of Some stats \<Rightarrow> Some (file_entry env dirPath d stats) | None \<Rightarrow> None)
              else None) files"

function (sequential)
  all_events :: "search_env \<Rightarrow> string \<Rightarrow> node list option \<Rightarrow> string \<Rightarrow> entry option list"
  and dir_events :: "search_env \<Rightarrow> string \<Rightarrow> node list \<Rightarrow> string \<Rightarrow> entry option list"
where
  "all_events env dirPath None query = [None]"
| "all_events env dirPath (Some dirents) query =
     None # file_events env dirPath (filter (\<lambda>d. \<not> isDirectory d) dirents) (se_toLowerCase env query)
     @ dir_events env dirPath (filter isDirectory dirents) query"
| "dir_events env dirPath [] query = []"
| "dir_events env dirPath (d # rest) query =
     (if str_includes (se_toLowerCase env (node_name d)) (se_toLowerCase env query)
      then (case node_stat d of Some stats \<Rightarrow> Some (dir_entry env dirPath d stats) | None \<Rightarrow> None)
      else None)
     # all_events env (path_join [dirPath, node_name d]) (node_children d) query
     @ dir_events env dirPath rest query"
  by pat_completeness auto
termination
proof (relation "measure (\<lambda>x. case x of
          Inl (env, dirPath, readdir, q) \<Rightarrow> 2 * size_option (size_list size) readdir
        | Inr (env, dirPath, dirents, q) \<Rightarrow> 2 * size_list size dirents + 1)", goal_cases)
  case 1
  show ?case by simp
next
  case (2 env dirPath dirents query)
  have "size_list size (filter isDirectory dirents) \<le> size_list size dirents"
    by (induction dirents) auto
  then show ?case by simp
next
  case (3 env dirPath d rest query)
  show ?case by (cases d) simp_all
next
  case (4 env dirPath d rest query)
  show ?case by simp
qed

text \<open>The traversal in the words of the specification: at every boundary, stop when the
  number of collected entries has reached the limit; otherwise read the clock, and stop,
  marking the timeout, when the reading is more than the timeout after the start;
  otherwise collect the entry of the boundary and go on. \<open>k\<close> is the number of the next
  clock reading. The result is the number of clock readings made, what was collected,
  and whether the timeout stopped the walk.\<close>

fun spec_walk ::
  "(nat \<Rightarrow> int) \<Rightarrow> int \<Rightarrow> int \<Rightarrow> int \<Rightarrow> entry option list \<Rightarrow> nat \<Rightarrow> entry list
     \<Rightarrow> nat \<times> entry list \<times> bool" where
  "spec_walk now startTime timeout limit [] k acc = (k, acc, False)"
| "spec_walk now startTime timeout limit (ev # rest) k acc =
     (if int (length acc) \<ge> limit then (k, acc, False)
      else if now k - startTime > timeout then (Suc k, acc, True)
      else spec_walk now startTime timeout limit rest (Suc k)
             (case ev of Some e \<Rightarrow> acc @ [e] | None \<Rightarrow> acc))"

text \<open>A stretch of the traversal from \<open>s\<close> to \<open>s'\<close> over the boundaries \<open>E\<close> does what
  the walk above does. Started with the flag clear, it ends with the flag set exactly
  when the timeout stopped the walk. When it did not, the stretch has collected what the
  walk has collected and has read the clock as often, once per boundary passed. When it
  did, the stretch has read the clock at least as often (every loop that is still open
  reads it once more before it ends), and with a clock that does not run backwards it
  has collected nothing beyond what the walk had when it was stopped.\<close>

definition walks ::
  "search_env \<Rightarrow> int \<Rightarrow> int \<Rightarrow> int \<Rightarrow> entry option list \<Rightarrow> sstate \<Rightarrow> sstate \<Rightarrow> bool" where
  "walks env startTime timeout limit E s s' \<longleftrightarrow>
     (\<not> timedOut s \<longrightarrow>
        (case spec_walk (se_now env) startTime timeout limit E (ticks s) (results s) of
           (k, acc, stopped) \<Rightarrow>
             timedOut s' = stopped \<and>
             (if stopped then k \<le> ticks s' \<and> (clock_mono env \<longrightarrow> results s' = acc)
              else results s' = acc \<and> ticks s' = k)))"

text \<open>A directory \<open>/data\<close> with a thousand files named \<open>a.txt\<close> (the tree of the
  specification's example), a small directory, a clock that stands still and one that
  advances by 2 ms from one reading to the next, and a file system without symbolic links
  that knows \<open>/data\<close> and \<open>/small\<close>. The string functions of the examples are what
  \<open>trim\<close> and \<open>toLowerCase\<close> do on ASCII strings: the white space of ASCII is
  stripped from both ends, and \<open>A\<close>..\<open>Z\<close> are mapped to \<open>a\<close>..\<open>z\<close>.\<close>

definition lower_char :: "char \<Rightarrow> char" where
  "lower_char c =
     (let n = (of_char c :: nat) in if 65 \<le> n \<and> n \<le> 90 then char_of (n + 32) else c)"

definition ex_toLowerCase :: "string \<Rightarrow> string" where
  "ex_toLowerCase s = map lower_char s"

definition is_space :: "char \<Rightarrow> bool" where
  "is_space c \<longleftrightarrow> (of_char c :: nat) \<in> {9, 10, 11, 12, 13, 32}"

definition ex_trim :: "string \<Rightarrow> string" where
  "ex_trim s = rev (dropWhile is_space (rev (dropWhile is_space s)))"

definition ex_file :: node where
  "ex_file = FileNode ''a.txt'' (Some \<lparr>st_size = 3, st_mtimeMs = 7\<rparr>)"

definition ex_big_dir :: node where
  "ex_big_dir = DirNode ''data'' (Some \<lparr>st_size = 0, st_mtimeMs = 1\<rparr>) (Some (replicate 1000 ex_file))"

definition ex_small_dir :: node where
  "ex_small_dir =
     DirNode ''small'' (Some \<lparr>st_size = 0, st_mtimeMs = 1\<rparr>)
       (Some [ex_file,
              DirNode ''Album'' (Some \<lparr>st_size = 0, st_mtimeMs = 2\<rparr>)
                (Some [FileNode ''b.txt'' (Some \<lparr>st_size = 5, st_mtimeMs = 9\<rparr>), ex_file]),
              FileNode ''pa.md'' None])"

definition ex_env :: "string \<Rightarrow> search_env" where
  "ex_env rootDir =
     \<lparr>se_now = (\<lambda>k. 0), se_relative = (\<lambda>a b. drop (length a + 1) b),
      se_mime = (\<lambda>p. None), se_localeCompare = (\<lambda>a b. int (length a) - int (length b)),
      se_root = rootDir, se_trim = ex_trim, se_toLowerCase = ex_toLowerCase\<rparr>"

definition ex_ticking_env :: "string \<Rightarrow> search_env" where
  "ex_ticking_env rootDir = (ex_env rootDir)\<lparr>se_now := (\<lambda>k. 2 * int k)\<rparr>"

definition ex_fs :: filesystem where
  "ex_fs = \<lparr>fs_realpath = (\<lambda>p. Inr p),
            fs_stat = (\<lambda>p. if p = ''/data'' then Inr ex_big_dir
                            else if p = ''/small'' then Inr ex_small_dir else Inl ENOENT),
            fs_cwd = ''/srv''\<rparr>"

definition ex_search :: "string \<Rightarrow> search_request" where
  "ex_search q = \<lparr>q_q = Some q, q_path = None, q_limit = Some 10, q_timeout = Some 5\<rparr>"

section \<open>Properties of the session authority\<close>

lemma step_version_mono: "sv_version s \<le> sv_version (step cfg scrypt s ev)"
  by (cases ev)
     (auto simp: invalidate_sessions_def incrementSessionVersion_def
           split: login_result.splits mw_result.splits)

lemma login_token_version:
  "login cfg scrypt v now u pw = LoginOk t \<Longrightarrow> \<exists>k p. t = Signed k p \<and> sessionVersion p = v"
  by (auto simp: login_def jwt_sign_def getSessionVersion_def Let_def
           split: if_splits option.splits)

lemma step_issued_ok: "issued_ok s \<Longrightarrow> issued_ok (step cfg scrypt s ev)"
proof (cases ev)
  case (EvLogin u pw now)
  assume ok: "issued_ok s"
  show ?thesis
  proof (cases "login cfg scrypt (sv_version s) now u pw")
    case (LoginOk t)
    from login_token_version[OF this] ok show ?thesis
      using EvLogin LoginOk by (auto simp: issued_ok_def)
  qed (use ok EvLogin in \<open>auto simp: issued_ok_def\<close>)
next
  case (EvInvalidate req now)
  assume ok: "issued_ok s"
  have "sv_version s \<le> sv_version (step cfg scrypt s ev)" by (rule step_version_mono)
  with ok EvInvalidate show ?thesis
    by (fastforce simp: issued_ok_def)
next
  case (EvOther req now)
  assume "issued_ok s" with EvOther show ?thesis by simp
qed

lemma run_issued_ok: "issued_ok s \<Longrightarrow> issued_ok (run cfg scrypt s evs)"
  unfolding run_def by (induction evs arbitrary: s) (auto intro: step_issued_ok)

lemma run_version_mono: "sv_version s \<le> sv_version (run cfg scrypt s evs)"
  unfolding run_def
proof (induction evs arbitrary: s)
  case Nil show ?case by simp
next
  case (Cons e es)
  have "sv_version s \<le> sv_version (step cfg scrypt s e)" by (rule step_version_mono)
  also have "\<dots> \<le> sv_version (foldl (step cfg scrypt) (step cfg scrypt s e) es)" by (rule Cons.IH)
  finally show ?case by simp
qed

lemma initial_issued_ok: "issued_ok initial_server"
  by (simp add: issued_ok_def initial_server_def)

lemma requireAuth_stale:
  assumes g: "guarded cfg req" and tok: "extractToken req = Some (Signed k p)"
      and stale: "sessionVersion p \<noteq> v"
  shows "requireAuth cfg v now req =
           Respond 401 (case jwt_verify (Signed k p) (SESSION_SECRET cfg) now of
                          Inr q \<Rightarrow> ''Session has been invalidated.''
                        | Inl e \<Rightarrow> ''Invalid or expired token.'')"
  using assms
  by (auto simp: requireAuth_def guarded_def jwt_verify_def split: sum.splits)

text \<open>
  Claim C3. Start the server, let any events happen, and pick a token that \<open>login\<close> has
  issued by then. Once an invalidate-sessions request has gone through (the counter was
  incremented), then after any further events every guarded request that carries the
  token is answered 401 and never passed on; when the token's signature is valid and it
  has not expired, the answer is the session-invalidated one. The status route reports
  every request that carries the token as not authenticated. And whatever the token,
  \<open>requireAuth\<close> attaches a user only when the embedded \<open>sessionVersion\<close> equals the
  current counter.
\<close>

theorem invalidateAll_rejects_issued_tokens:
  assumes s1: "s1 = run cfg scrypt initial_server evs1"
      and issued: "t \<in> set (sv_issued s1)"
      and inval: "invalidate_sessions cfg (sv_version s1) now1 req1 = (v2, True)"
      and s3: "s3 = run cfg scrypt (s1\<lparr>sv_version := v2\<rparr>) evs2"
      and g: "guarded cfg req"
      and tok: "extractToken req = Some t"
  shows "(\<exists>msg. requireAuth cfg (sv_version s3) now req = Respond 401 msg) \<and>
         (\<forall>p. jwt_verify t (SESSION_SECRET cfg) now = Inr p \<longrightarrow>
              requireAuth cfg (sv_version s3) now req = Respond 401 ''Session has been invalidated.'') \<and>
         (\<forall>r. extractToken r = Some t \<longrightarrow> auth_status cfg (sv_version s3) now r = (True, False)) \<and>
         (\<forall>v r q. requireAuth cfg v now r = Next (Some q) \<longrightarrow> sessionVersion q = v)"
proof -
  have ok1: "issued_ok s1" unfolding s1 by (rule run_issued_ok[OF initial_issued_ok])
  then obtain k p where t: "t = Signed k p" and le: "sessionVersion p \<le> sv_version s1"
    using issued by (auto simp: issued_ok_def)
  have v2: "v2 = sv_version s1 + 1"
    using inval by (auto simp: invalidate_sessions_def incrementSessionVersion_def
                         split: mw_result.splits if_splits)
  have "v2 \<le> sv_version s3"
    unfolding s3 using run_version_mono[of "s1\<lparr>sv_version := v2\<rparr>" cfg scrypt evs2] by simp
  with le v2 have stale: "sessionVersion p \<noteq> sv_version s3" by simp
  note r = requireAuth_stale[OF g tok[unfolded t] stale, of now]
  have a: "\<exists>msg. requireAuth cfg (sv_version s3) now req = Respond 401 msg"
    using r by simp
  have b: "\<forall>p'. jwt_verify t (SESSION_SECRET cfg) now = Inr p' \<longrightarrow>
              requireAuth cfg (sv_version s3) now req = Respond 401 ''Session has been invalidated.''"
    using r t by simp
  have c: "\<forall>v r q. requireAuth cfg v now r = Next (Some q) \<longrightarrow> sessionVersion q = v"
    by (auto simp: requireAuth_def split: if_splits sum.splits)
  have req: "AUTH_REQUIRED cfg" using g by (simp add: guarded_def)
  have d: "\<forall>r. extractToken r = Some t \<longrightarrow> auth_status cfg (sv_version s3) now r = (True, False)"
    using req stale t
    by (auto simp: auth_status_def jwt_verify_def getSessionVersion_def split: sum.splits)
  from a b c d show ?thesis by blast
qed

theorem invalidateAll_rejects_issued_tokens_witness:
  "ex_token 1 100 \<in> set (sv_issued (run ex_cfg ex_scrypt initial_server
       [EvLogin (JString ''admin'') (JString ''hunter2'') 100])) \<and>
   invalidate_sessions ex_cfg 1 200
       (ex_request ''POST'' ''/auth/invalidate-sessions'' (Bearer (ex_token 1 100)) (Some ''c'')) = (2, True) \<and>
   guarded ex_cfg (ex_request ''GET'' ''/tree'' (Bearer (ex_token 1 100)) None) \<and>
   extractToken (ex_request ''GET'' ''/tree'' (Bearer (ex_token 1 100)) None) = Some (ex_token 1 100) \<and>
   jwt_verify (ex_token 1 100) (SESSION_SECRET ex_cfg) 300 = Inr \<lparr>username = ''admin'', sessionVersion = 1, jwt_exp = 3700\<rparr> \<and>
   requireAuth ex_cfg 2 300 (ex_request ''GET'' ''/tree'' (Bearer (ex_token 1 100)) None)
     = Respond 401 ''Session has been invalidated.'' \<and>
   auth_status ex_cfg 2 300 (ex_request ''GET'' ''/auth/status'' (Bearer (ex_token 1 100)) None)
     = (True, False)"
proof -
  define s1 where "s1 = run ex_cfg ex_scrypt initial_server
       [EvLogin (JString ''admin'') (JString ''hunter2'') 100]"
  define req where "req = ex_request ''GET'' ''/tree'' (Bearer (ex_token 1 100)) None"
  have s1v: "sv_version s1 = 1" and s1i: "sv_issued s1 = [ex_token 1 100]"
    unfolding s1_def by code_simp+
  have h2: "ex_token 1 100 \<in> set (sv_issued s1)" using s1i by simp
  have h3: "invalidate_sessions ex_cfg (sv_version s1) 200
       (ex_request ''POST'' ''/auth/invalidate-sessions'' (Bearer (ex_token 1 100)) (Some ''c'')) = (2, True)"
    unfolding s1v by code_simp
  have h4: "s1\<lparr>sv_version := 2\<rparr> = run ex_cfg ex_scrypt (s1\<lparr>sv_version := 2\<rparr>) []"
    by (simp add: run_def)
  have h5: "guarded ex_cfg req" unfolding req_def by code_simp
  have h6: "extractToken req = Some (ex_token 1 100)" unfolding req_def by code_simp
  have h7: "jwt_verify (ex_token 1 100) (SESSION_SECRET ex_cfg) 300
            = Inr \<lparr>username = ''admin'', sessionVersion = 1, jwt_exp = 3700\<rparr>"
    by code_simp
  have h8: "extractToken (ex_request ''GET'' ''/auth/status'' (Bearer (ex_token 1 100)) None)
            = Some (ex_token 1 100)"
    by code_simp
  note main = invalidateAll_rejects_issued_tokens[OF s1_def h2 h3 h4 h5 h6, of 300]
  from main h7
  have r: "requireAuth ex_cfg 2 300 req = Respond 401 ''Session has been invalidated.''"
    by simp
  from main h8
  have st: "auth_status ex_cfg 2 300
              (ex_request ''GET'' ''/auth/status'' (Bearer (ex_token 1 100)) None) = (True, False)"
    by simp
  from r st h2 h3 h5 h6 h7 show ?thesis unfolding req_def s1_def[symmetric] s1v by simp
qed

text \<open>
  Claim C4, as stated, at concrete requests: a request without a token, one with a token
  of a stale session version and one with a string that is no token are all answered 401,
  but with three different \<open>error\<close> messages in the body, so the body does tell the
  failure reasons apart.
\<close>

theorem requireAuth_bodies_tell_reasons_apart:
  "requireAuth ex_cfg 2 300 (ex_request ''GET'' ''/tree'' NoHeader None)
     = Respond 401 ''Authentication required.'' \<and>
   requireAuth ex_cfg 2 300 (ex_request ''GET'' ''/tree'' (Bearer (ex_token 1 100)) None)
     = Respond 401 ''Session has been invalidated.'' \<and>
   requireAuth ex_cfg 2 300 (ex_request ''GET'' ''/tree'' (Bearer (Garbage ''abc'')) None)
     = Respond 401 ''Invalid or expired token.'' \<and>
   requireAuth ex_cfg 2 300 (ex_request ''GET'' ''/tree'' NoHeader None)
     \<noteq> requireAuth ex_cfg 2 300 (ex_request ''GET'' ''/tree'' (Bearer (ex_token 1 100)) None)"
  by code_simp

text \<open>
  Claim C4, amended. Whenever \<open>requireAuth\<close> refuses a request the status is 401, and the
  message is fixed by the class of the failure alone: missing token, token that does not
  verify (a bad signature and an elapsed expiry give the same message), or stale session
  version.
\<close>

theorem requireAuth_failure_response:
  assumes "requireAuth cfg version now req = Respond st msg"
  shows "st = 401 \<and>
         msg = (if falsy_token (extractToken req) then ''Authentication required.''
                else case jwt_verify (the (extractToken req)) (SESSION_SECRET cfg) now of
                       Inl e \<Rightarrow> ''Invalid or expired token.''
                     | Inr p \<Rightarrow> ''Session has been invalidated.'')"
  using assms by (auto simp: requireAuth_def split: if_splits sum.splits)

theorem requireAuth_failure_response_witness:
  "requireAuth ex_cfg 2 5000 (ex_request ''GET'' ''/tree'' (Bearer (ex_token 2 100)) None)
     = Respond 401 ''Invalid or expired token.'' \<and>
   jwt_verify (ex_token 2 100) (SESSION_SECRET ex_cfg) 5000 = Inl TokenExpiredError"
proof -
  have h: "requireAuth ex_cfg 2 5000 (ex_request ''GET'' ''/tree'' (Bearer (ex_token 2 100)) None)
     = Respond 401 ''Invalid or expired token.''"
    by code_simp
  have v: "jwt_verify (ex_token 2 100) (SESSION_SECRET ex_cfg) 5000 = Inl TokenExpiredError"
    by code_simp
  from requireAuth_failure_response[OF h] h v show ?thesis by simp
qed

subsection \<open>What the comparisons compute\<close>

lemma safeCompare_eq: "safeCompare (JString a) (JString b) \<longleftrightarrow> a = b"
  by (auto simp: timingSafeEqual_def)

lemma safeCompare_length_mismatch:
  "length a \<noteq> length b \<Longrightarrow> safeCompare (JString a) (JString b) = False"
  by simp

lemma verifyPassword_plain:
  "\<not> prefix ''scrypt:'' stored \<Longrightarrow>
     verifyPassword scrypt (JString pw) stored = Some (pw = stored)"
  using safeCompare_eq[of pw stored] by (simp add: verifyPassword_def del: safeCompare.simps)

section \<open>Properties of the path sandbox\<close>

lemma resolveSafePath_prefix:
  "resolveSafePath rootDir cwd relativePath = Inr p \<Longrightarrow> prefix rootDir p"
  by (auto simp: resolveSafePath_def Let_def split: if_splits)

lemma resolveSafePath_error:
  "resolveSafePath rootDir cwd relativePath = Inl e \<Longrightarrow> e = EscapesRoot"
  by (auto simp: resolveSafePath_def Let_def split: if_splits)

lemma symlink_check_real_prefix:
  assumes "resolveSafePath rootDir cwd relativePath = Inr resolved"
      and "realpath resolved = Inr realPath"
  shows "resolveSafePathWithSymlinkCheck realpath rootDir cwd relativePath =
           (if prefix rootDir realPath then Inr realPath else Inl EscapesRootViaSymlink)"
  using assms by (simp add: resolveSafePathWithSymlinkCheck_def)

lemma symlink_check_parent_prefix:
  assumes "resolveSafePath rootDir cwd relativePath = Inr resolved"
      and "realpath resolved = Inl ENOENT"
      and "realpath (path_dirname resolved) = Inr parentReal"
  shows "resolveSafePathWithSymlinkCheck realpath rootDir cwd relativePath =
           (if prefix rootDir parentReal then Inr resolved else Inl EscapesRootViaSymlink)"
  using assms by (simp add: resolveSafePathWithSymlinkCheck_def)

text \<open>
  Claim C1, at a concrete input. With the root \<open>/data\<close> (the default), the relative path
  \<open>../data2/secret\<close> resolves to \<open>/data2/secret\<close>, which begins with the characters of
  the root, so \<open>resolveSafePath\<close> returns it; so does the variant with the symbolic-link
  check on a file system without links. The path is neither the root nor below it.
\<close>

theorem resolveSafePath_returns_sibling_of_root:
  "ROOT_DIRECTORY ''/srv'' None = ''/data'' \<and>
   resolveSafePath ''/data'' ''/srv'' (Some ''../data2/secret'') = Inr ''/data2/secret'' \<and>
   resolveSafePathWithSymlinkCheck ex_realpath_plain ''/data'' ''/srv'' (Some ''../data2/secret'')
     = Inr ''/data2/secret'' \<and>
   \<not> within_boundary ''/data'' ''/data2/secret''"
  by code_simp

text \<open>
  Claim C2, at a concrete input. \<open>/data/link\<close> passes the lexical check, its canonical
  path \<open>/data2/secret\<close> is neither the root \<open>/data\<close> nor below it, and
  \<open>resolveSafePathWithSymlinkCheck\<close> returns that canonical path.
\<close>

theorem symlink_check_returns_sibling_of_root:
  "resolveSafePath ''/data'' ''/srv'' (Some ''link'') = Inr ''/data/link'' \<and>
   ex_realpath_link ''/data/link'' = Inr ''/data2/secret'' \<and>
   \<not> within_boundary ''/data'' ''/data2/secret'' \<and>
   resolveSafePathWithSymlinkCheck ex_realpath_link ''/data'' ''/srv'' (Some ''link'')
     = Inr ''/data2/secret''"
  by code_simp

section \<open>Properties of the share registry\<close>

lemma verify_share_expired:
  assumes "shares shareId = Some share" "sh_expiresAt share < now" "\<not> falsy_str code"
  shows "verify_share toUpperCase stat_ok newToken now shares shareId code
           = (Fail 404 ''Share has expired.'', shares(shareId := None))"
  using assms by (simp add: verify_share_def)

lemma verifyShareAccess_expired:
  assumes "shares shareId = Some share" "sh_expiresAt share < now" "\<not> falsy_str accessToken"
  shows "verifyShareAccess now shares shareId accessToken
           = (Fail 404 ''Share has expired.'', shares(shareId := None))"
  using assms by (simp add: verifyShareAccess_def)

lemma share_access_expired:
  assumes "shares shareId = Some share" "sh_expiresAt share < now" "\<not> falsy_str accessToken"
  shows "share_access realpath now shares shareId accessToken qpath
           = (Fail 404 ''Share has expired.'', shares(shareId := None))"
  using assms by (simp add: share_access_def verifyShareAccess_def)

lemma cleanup_dom:
  "dom (cleanupExpiredShares now shares) = {i \<in> dom shares. \<not> sh_expiresAt (the (shares i)) < now}"
  by (auto simp: cleanupExpiredShares_def dom_def split: option.splits if_splits)

lemma cleanup_keeps:
  "i \<in> dom (cleanupExpiredShares now shares) \<Longrightarrow> cleanupExpiredShares now shares i = shares i"
  by (auto simp: cleanupExpiredShares_def dom_def split: option.splits if_splits)

lemma verify_share_dead:
  assumes "dead t0 shares shareId" "t0 \<le> now"
  shows "\<not> succeeded (fst (verify_share toUpperCase stat_ok newToken now shares i code)) \<or> i \<noteq> shareId"
    and "dead t0 (snd (verify_share toUpperCase stat_ok newToken now shares i code)) shareId"
  using assms
  by (auto simp: verify_share_def dead_def Let_def split: option.splits if_splits)

lemma verifyShareAccess_dead:
  assumes "dead t0 shares shareId" "t0 \<le> now"
  shows "\<not> succeeded (fst (verifyShareAccess now shares i tok)) \<or> i \<noteq> shareId"
    and "dead t0 (snd (verifyShareAccess now shares i tok)) shareId"
  using assms
  by (auto simp: verifyShareAccess_def dead_def Let_def split: option.splits if_splits)

lemma share_access_dead:
  assumes "dead t0 shares shareId" "t0 \<le> now"
  shows "\<not> succeeded (fst (share_access realpath now shares i tok qpath)) \<or> i \<noteq> shareId"
    and "dead t0 (snd (share_access realpath now shares i tok qpath)) shareId"
  using verifyShareAccess_dead[OF assms, of i tok]
  by (auto simp: share_access_def split: prod.splits reply.splits)

lemma share_step_dead:
  assumes "dead t0 shares shareId" "\<forall>t. op_time oper = Some t \<longrightarrow> t0 \<le> t"
  shows "fst (share_step toUpperCase stat_ok realpath shares oper) \<noteq> Some shareId"
    and "dead t0 (snd (share_step toUpperCase stat_ok realpath shares oper)) shareId"
proof -
  show "fst (share_step toUpperCase stat_ok realpath shares oper) \<noteq> Some shareId"
  proof (cases oper)
    case (OpVerify i code newToken now)
    with assms verify_share_dead(1)[of t0 shares shareId now toUpperCase stat_ok newToken i code]
    show ?thesis by (auto split: prod.splits)
  next
    case (OpAccess i tok qpath now)
    with assms share_access_dead(1)[of t0 shares shareId now realpath i tok qpath]
    show ?thesis by (auto split: prod.splits)
  qed simp_all
  show "dead t0 (snd (share_step toUpperCase stat_ok realpath shares oper)) shareId"
  proof (cases oper)
    case (OpVerify i code newToken now)
    with assms verify_share_dead(2)[of t0 shares shareId now toUpperCase stat_ok newToken i code]
    show ?thesis by (auto split: prod.splits)
  next
    case (OpAccess i tok qpath now)
    with assms share_access_dead(2)[of t0 shares shareId now realpath i tok qpath]
    show ?thesis by (auto split: prod.splits)
  next
    case (OpCleanup now)
    with assms show ?thesis
      by (auto simp: dead_def cleanupExpiredShares_def split: option.splits)
  next
    case (OpDelete i)
    with assms show ?thesis by (auto simp: dead_def)
  qed
qed

lemma served_dead:
  assumes "dead t0 shares shareId" "\<forall>oper \<in> set ops. \<forall>t. op_time oper = Some t \<longrightarrow> t0 \<le> t"
  shows "shareId \<notin> set (served toUpperCase stat_ok realpath shares ops)"
  using assms
proof (induction ops arbitrary: shares)
  case Nil
  show ?case by simp
next
  case (Cons oper ops)
  have a: "\<forall>t. op_time oper = Some t \<longrightarrow> t0 \<le> t" using Cons.prems(2) by simp
  note d = share_step_dead[OF Cons.prems(1) a, of toUpperCase stat_ok realpath]
  obtain r shares' where st: "share_step toUpperCase stat_ok realpath shares oper = (r, shares')"
    by (cases "share_step toUpperCase stat_ok realpath shares oper")
  from d st have r: "r \<noteq> Some shareId" and dd: "dead t0 shares' shareId" by simp_all
  have "shareId \<notin> set (served toUpperCase stat_ok realpath shares' ops)"
    using Cons.IH[OF dd] Cons.prems(2) by simp
  with r st show ?case by (auto split: option.splits)
qed

text \<open>
  Claim C6. For a share in the store whose \<open>expiresAt\<close> is earlier than the clock value:
  verify (with any access code that was sent, the correct one included) and an access
  with a token both answer 404 and leave a store without the record; the sweep keeps
  exactly the records that have not expired, unchanged; and over any later sequence of
  verifications, accesses, sweeps and deletions whose clock values are not earlier, the
  share is never verified or read again.
\<close>

theorem expired_share_is_gone:
  assumes live: "shares shareId = Some share"
      and expired: "sh_expiresAt share < now"
      and code: "\<not> falsy_str code"
      and tok: "\<not> falsy_str accessToken"
      and later: "\<forall>oper \<in> set ops. \<forall>t. op_time oper = Some t \<longrightarrow> now \<le> t"
  shows "verify_share toUpperCase stat_ok newToken now shares shareId code
           = (Fail 404 ''Share has expired.'', shares(shareId := None)) \<and>
         share_access realpath now shares shareId accessToken qpath
           = (Fail 404 ''Share has expired.'', shares(shareId := None)) \<and>
         dom (cleanupExpiredShares now shares)
           = {i \<in> dom shares. \<not> sh_expiresAt (the (shares i)) < now} \<and>
         (\<forall>i \<in> dom (cleanupExpiredShares now shares). cleanupExpiredShares now shares i = shares i) \<and>
         shareId \<notin> set (served toUpperCase stat_ok realpath shares ops)"
proof -
  have a: "verify_share toUpperCase stat_ok newToken now shares shareId code
           = (Fail 404 ''Share has expired.'', shares(shareId := None))"
    using live expired code by (simp add: verify_share_def)
  have b: "share_access realpath now shares shareId accessToken qpath
           = (Fail 404 ''Share has expired.'', shares(shareId := None))"
    using live expired tok by (simp add: share_access_def verifyShareAccess_def)
  have c: "dom (cleanupExpiredShares now shares)
           = {i \<in> dom shares. \<not> sh_expiresAt (the (shares i)) < now}"
    by (rule cleanup_dom)
  have d: "\<forall>i \<in> dom (cleanupExpiredShares now shares). cleanupExpiredShares now shares i = shares i"
    using cleanup_keeps by blast
  have "dead now shares shareId" using live expired by (simp add: dead_def)
  then have e: "shareId \<notin> set (served toUpperCase stat_ok realpath shares ops)"
    using later by (rule served_dead)
  from a b c d e show ?thesis by blast
qed

theorem expired_share_is_gone_witness:
  "ex_store ''ab12'' = Some ex_share \<and> sh_expiresAt ex_share < 3601001 \<and>
   fst (verify_share ex_toUpperCase (\<lambda>p. True) ''t2'' 3601001 ex_store ''ab12'' (Some ''K7QZ2M''))
     = Fail 404 ''Share has expired.'' \<and>
   snd (verify_share ex_toUpperCase (\<lambda>p. True) ''t2'' 3601001 ex_store ''ab12'' (Some ''K7QZ2M'')) ''ab12'' = None \<and>
   ''ab12'' \<notin> set (served ex_toUpperCase (\<lambda>p. True) ex_realpath_docs ex_store
       [OpCleanup 3601001, OpVerify ''ab12'' (Some ''K7QZ2M'') ''t3'' 3601002])"
proof -
  have h1: "ex_store ''ab12'' = Some ex_share" by (simp add: ex_store_def)
  have h2: "sh_expiresAt ex_share < 3601001" by (simp add: ex_share_def)
  have h3: "\<not> falsy_str (Some ''K7QZ2M'')" by (simp add: falsy_str_def)
  have h4: "\<not> falsy_str (Some ''tok'')" by (simp add: falsy_str_def)
  have h5: "\<forall>oper \<in> set [OpCleanup 3601001, OpVerify ''ab12'' (Some ''K7QZ2M'') ''t3'' 3601002].
              \<forall>t. op_time oper = Some t \<longrightarrow> (3601001::int) \<le> t" by simp
  from expired_share_is_gone[where shares = ex_store and shareId = "''ab12''" and share = ex_share
         and stat_ok = "\<lambda>p. True" and newToken = "''t2''" and realpath = ex_realpath_docs
         and qpath = None and toUpperCase = ex_toUpperCase, OF h1 h2 h3 h4 h5]
  show ?thesis using h1 h2 by simp
qed

lemma code_chars_not_lower:
  "d \<in> set code_chars \<Longrightarrow> \<not> (97 \<le> (of_char d :: nat) \<and> (of_char d :: nat) \<le> 122)"
  by (auto simp: code_chars_def)

lemma upper_char_eq_iff:
  assumes "\<not> (97 \<le> (of_char d :: nat) \<and> (of_char d :: nat) \<le> 122)"
  shows "upper_char c = d \<longleftrightarrow> same_letter c d"
proof (cases "97 \<le> (of_char c :: nat) \<and> (of_char c :: nat) \<le> 122")
  case True
  then have u: "upper_char c = char_of ((of_char c :: nat) - 32)"
    by (simp add: upper_char_def)
  have "char_of ((of_char c :: nat) - 32) = d \<longleftrightarrow> (of_char d :: nat) + 32 = of_char c"
  proof
    assume "char_of ((of_char c :: nat) - 32) = d"
    then have "(of_char d :: nat) = ((of_char c :: nat) - 32) mod 256"
      by (metis of_char_of)
    moreover have "((of_char c :: nat) - 32) mod 256 = (of_char c :: nat) - 32"
    proof (rule mod_less)
      from True show "(of_char c :: nat) - 32 < 256" by linarith
    qed
    ultimately show "(of_char d :: nat) + 32 = of_char c" using True by simp
  next
    assume "(of_char d :: nat) + 32 = of_char c"
    then have "(of_char c :: nat) - 32 = of_char d" by simp
    then show "char_of ((of_char c :: nat) - 32) = d" by simp
  qed
  with u True assms show ?thesis by (auto simp: same_letter_def)
next
  case False
  then have "upper_char c = c" by (auto simp: upper_char_def Let_def)
  with False assms show ?thesis by (auto simp: same_letter_def)
qed

lemma upper_chars_eq_iff:
  assumes "\<forall>d \<in> set t. \<not> (97 \<le> (of_char d :: nat) \<and> (of_char d :: nat) \<le> 122)"
  shows "map upper_char s = t \<longleftrightarrow> case_variant s t"
  using assms
proof (induction s arbitrary: t)
  case Nil
  show ?case by (auto simp: case_variant_def)
next
  case (Cons c s)
  show ?case
  proof (cases t)
    case Nil
    then show ?thesis by (simp add: case_variant_def)
  next
    case (Cons d t')
    with Cons.prems Cons.IH[of t'] upper_char_eq_iff[of d c]
    show ?thesis by (auto simp: case_variant_def)
  qed
qed

lemma ex_toUpperCase_ascii: "ascii s \<Longrightarrow> ex_toUpperCase s = map upper_char s"
proof (induction s rule: ex_toUpperCase.induct)
  case 1 show ?case by simp
next
  case (2 c) show ?case by simp
next
  case (3 c d s)
  from "3.prems" have c: "(of_char c :: nat) < 128" and rest: "ascii (d # s)"
    by (simp_all add: ascii_def)
  from c have "c \<noteq> CHR 0xC5" "c \<noteq> CHR 0xC3" by auto
  with "3.IH"(3) rest show ?case by simp
qed

lemma charAt_random:
  assumes "0 \<le> r" "r < 1"
  shows "\<exists>d \<in> set code_chars. charAt code_chars \<lfloor>r * real (length code_chars)\<rfloor> = [d]"
proof -
  have len: "length code_chars = 32" by (simp add: code_chars_def)
  have "0 \<le> r * 32" "r * 32 < 32" using assms by simp_all
  then have lo: "0 \<le> \<lfloor>r * 32\<rfloor>" and hi: "\<lfloor>r * 32\<rfloor> < 32" by (simp_all add: floor_less_iff)
  from lo hi have n: "nat \<lfloor>r * 32\<rfloor> < length code_chars" unfolding len by linarith
  then have "code_chars ! nat \<lfloor>r * 32\<rfloor> \<in> set code_chars" by (rule nth_mem)
  moreover have "charAt code_chars \<lfloor>r * real (length code_chars)\<rfloor> = [code_chars ! nat \<lfloor>r * 32\<rfloor>]"
    using lo n unfolding charAt_def by (simp add: len)
  ultimately show ?thesis by blast
qed

lemma generateAccessCode_alphabet:
  assumes "\<forall>i<6. 0 \<le> random i \<and> random i < 1"
  shows "length (generateAccessCode random) = 6 \<and> set (generateAccessCode random) \<subseteq> set code_chars"
proof -
  have six: "[0..<6] = [0, 1, 2, 3, 4, 5::nat]" by (simp add: upt_rec)
  have pick: "\<exists>d \<in> set code_chars. charAt code_chars \<lfloor>random i * real (length code_chars)\<rfloor> = [d]"
    if "i < 6" for i
    using assms that charAt_random[of "random i"] by blast
  obtain d0 where d0: "d0 \<in> set code_chars" "charAt code_chars \<lfloor>random 0 * real (length code_chars)\<rfloor> = [d0]"
    using pick[of 0] by auto
  obtain d1 where d1: "d1 \<in> set code_chars" "charAt code_chars \<lfloor>random 1 * real (length code_chars)\<rfloor> = [d1]"
    using pick[of 1] by auto
  obtain d2 where d2: "d2 \<in> set code_chars" "charAt code_chars \<lfloor>random 2 * real (length code_chars)\<rfloor> = [d2]"
    using pick[of 2] by auto
  obtain d3 where d3: "d3 \<in> set code_chars" "charAt code_chars \<lfloor>random 3 * real (length code_chars)\<rfloor> = [d3]"
    using pick[of 3] by auto
  obtain d4 where d4: "d4 \<in> set code_chars" "charAt code_chars \<lfloor>random 4 * real (length code_chars)\<rfloor> = [d4]"
    using pick[of 4] by auto
  obtain d5 where d5: "d5 \<in> set code_chars" "charAt code_chars \<lfloor>random 5 * real (length code_chars)\<rfloor> = [d5]"
    using pick[of 5] by auto
  have "generateAccessCode random = [d0, d1, d2, d3, d4, d5]"
    unfolding generateAccessCode_def six using d0(2) d1(2) d2(2) d3(2) d4(2) d5(2) by simp
  with d0(1) d1(1) d2(1) d3(1) d4(1) d5(1) show ?thesis by simp
qed

text \<open>
  Claim C10, as stated, at two concrete inputs. \<open>S7QZ2M\<close> and \<open>SS7QZ2\<close> are codes that
  \<open>generateAccessCode\<close> produces, each the code of a share that has not expired.
  JavaScript upper-cases U+017F (long s) to \<open>S\<close>, so the supplied string made of U+017F
  and \<open>7qz2m\<close> is upper-cased to the first code and verify succeeds with it; it is no
  case variant of the code. JavaScript upper-cases U+00DF (sharp s) to \<open>SS\<close>, so verify
  succeeds for the second code with the string made of U+00DF and \<open>7qz2\<close>, which has
  five characters.
\<close>

theorem verify_accepts_long_s:
  "generateAccessCode ex_random_s = ''S7QZ2M'' \<and>
   ex_toUpperCase (CHR 0xC5 # CHR 0xBF # ''7qz2m'') = ''S7QZ2M'' \<and>
   succeeded (fst (verify_share ex_toUpperCase (\<lambda>p. True) ''t2'' 2000 ex_store_s ''cd34''
                     (Some (CHR 0xC5 # CHR 0xBF # ''7qz2m'')))) \<and>
   \<not> case_variant (CHR 0xC5 # CHR 0xBF # ''7qz2m'') ''S7QZ2M'' \<and>
   generateAccessCode ex_random_ss = ''SS7QZ2'' \<and>
   ex_toUpperCase (CHR 0xC3 # CHR 0x9F # ''7qz2'') = ''SS7QZ2'' \<and>
   succeeded (fst (verify_share ex_toUpperCase (\<lambda>p. True) ''t2'' 2000 ex_store_ss ''ef56''
                     (Some (CHR 0xC3 # CHR 0x9F # ''7qz2'')))) \<and>
   \<not> case_variant (CHR 0xC3 # CHR 0x9F # ''7qz2'') ''SS7QZ2''"
proof -
  have a: "generateAccessCode ex_random_s = ''S7QZ2M''"
    by (simp add: generateAccessCode_def ex_random_s_def code_chars_def charAt_def upt_rec)
  have c: "ex_toUpperCase (CHR 0xC5 # CHR 0xBF # ''7qz2m'') = ''S7QZ2M''"
    by code_simp
  have d: "succeeded (fst (verify_share ex_toUpperCase (\<lambda>p. True) ''t2'' 2000 ex_store_s ''cd34''
                     (Some (CHR 0xC5 # CHR 0xBF # ''7qz2m''))))"
    by code_simp
  have e: "\<not> case_variant (CHR 0xC5 # CHR 0xBF # ''7qz2m'') ''S7QZ2M''"
    by (simp add: case_variant_def)
  have f: "generateAccessCode ex_random_ss = ''SS7QZ2''"
    by (simp add: generateAccessCode_def ex_random_ss_def code_chars_def charAt_def upt_rec)
  have g: "ex_toUpperCase (CHR 0xC3 # CHR 0x9F # ''7qz2'') = ''SS7QZ2''"
    by code_simp
  have h: "succeeded (fst (verify_share ex_toUpperCase (\<lambda>p. True) ''t2'' 2000 ex_store_ss ''ef56''
                     (Some (CHR 0xC3 # CHR 0x9F # ''7qz2''))))"
    by code_simp
  have i: "\<not> case_variant (CHR 0xC3 # CHR 0x9F # ''7qz2'') ''SS7QZ2''"
    by (simp add: case_variant_def same_letter_def)
  from a c d e f g h i show ?thesis by blast
qed

text \<open>
  Claim C10, amended. For a share in the store that has not expired, whose access code
  came from \<open>generateAccessCode\<close> and whose path still exists: the code has six
  characters, all from the alphabet of upper-case letters and digits without \<open>0\<close>,
  \<open>O\<close>, \<open>1\<close> and \<open>I\<close>; verify succeeds with exactly the non-empty strings that
  \<open>toUpperCase\<close> maps to the code; and, \<open>toUpperCase\<close> being on ASCII strings the
  mapping of \<open>a\<close>..\<open>z\<close> to \<open>A\<close>..\<open>Z\<close>, among the ASCII strings these are
  exactly the case variants of the code.
\<close>

theorem verify_accepts_upper_cased_code:
  assumes live: "shares shareId = Some share"
      and fresh: "\<not> sh_expiresAt share < now"
      and gen: "sh_accessCode share = generateAccessCode random"
      and rnd: "\<forall>i<6. 0 \<le> random i \<and> random i < 1"
      and there: "stat_ok (sh_resolvedPath share)"
      and up: "\<forall>s. ascii s \<longrightarrow> toUpperCase s = map upper_char s"
  shows "length (sh_accessCode share) = 6 \<and>
         set (sh_accessCode share) \<subseteq> set code_chars \<and>
         set ''0O1I'' \<inter> set code_chars = {} \<and>
         set code_chars \<subseteq> set ''ABCDEFGHIJKLMNOPQRSTUVWXYZ0123456789'' \<and>
         (\<forall>code. succeeded (fst (verify_share toUpperCase stat_ok newToken now shares shareId (Some code)))
            \<longleftrightarrow> code \<noteq> [] \<and> toUpperCase code = sh_accessCode share) \<and>
         (\<forall>code. ascii code \<longrightarrow>
            (succeeded (fst (verify_share toUpperCase stat_ok newToken now shares shareId (Some code)))
               \<longleftrightarrow> case_variant code (sh_accessCode share)))"
proof -
  from generateAccessCode_alphabet[OF rnd] gen
  have len: "length (sh_accessCode share) = 6"
    and sub: "set (sh_accessCode share) \<subseteq> set code_chars" by simp_all
  have excl: "set ''0O1I'' \<inter> set code_chars = {}" by (simp add: code_chars_def)
  have upper: "set code_chars \<subseteq> set ''ABCDEFGHIJKLMNOPQRSTUVWXYZ0123456789''"
    by (simp add: code_chars_def)
  have nl: "\<forall>d \<in> set (sh_accessCode share). \<not> (97 \<le> (of_char d :: nat) \<and> (of_char d :: nat) \<le> 122)"
    using sub code_chars_not_lower by blast
  have exact: "succeeded (fst (verify_share toUpperCase stat_ok newToken now shares shareId (Some code)))
          \<longleftrightarrow> code \<noteq> [] \<and> toUpperCase code = sh_accessCode share" for code
  proof (cases "code = []")
    case True
    then show ?thesis by (simp add: verify_share_def falsy_str_def)
  next
    case False
    show ?thesis
    proof (cases "toUpperCase code = sh_accessCode share")
      case True
      then have "succeeded (fst (verify_share toUpperCase stat_ok newToken now shares shareId (Some code)))"
        using False live fresh there
        by (simp add: verify_share_def falsy_str_def timingSafeEqual_def Let_def)
      with True False show ?thesis by simp
    next
      case neq: False
      then have "\<not> succeeded (fst (verify_share toUpperCase stat_ok newToken now shares shareId (Some code)))"
        using False live fresh
        by (simp add: verify_share_def falsy_str_def timingSafeEqual_def Let_def)
      with neq show ?thesis by simp
    qed
  qed
  have variants: "succeeded (fst (verify_share toUpperCase stat_ok newToken now shares shareId (Some code)))
          \<longleftrightarrow> case_variant code (sh_accessCode share)" if asc: "ascii code" for code
  proof -
    from up asc have "toUpperCase code = map upper_char code" by blast
    with upper_chars_eq_iff[OF nl, of code]
    have eq: "toUpperCase code = sh_accessCode share \<longleftrightarrow> case_variant code (sh_accessCode share)"
      by simp
    have "case_variant code (sh_accessCode share) \<Longrightarrow> code \<noteq> []"
      using len by (auto simp: case_variant_def)
    with exact[of code] eq show ?thesis by blast
  qed
  from len sub excl upper exact variants show ?thesis by blast
qed

theorem verify_accepts_upper_cased_code_witness:
  "ex_store ''ab12'' = Some ex_share \<and> \<not> sh_expiresAt ex_share < 2000 \<and>
   sh_accessCode ex_share = generateAccessCode ex_random \<and>
   0 \<le> ex_random 0 \<and> ex_random 5 < 1 \<and> ascii ''k7qZ2m'' \<and>
   ex_toUpperCase ''k7qZ2m'' = map upper_char ''k7qZ2m'' \<and>
   case_variant ''k7qZ2m'' ''K7QZ2M'' \<and>
   succeeded (fst (verify_share ex_toUpperCase (\<lambda>p. True) ''t2'' 2000 ex_store ''ab12'' (Some ''k7qZ2m''))) \<and>
   \<not> succeeded (fst (verify_share ex_toUpperCase (\<lambda>p. True) ''t2'' 2000 ex_store ''ab12'' (Some ''k7qZ2n'')))"
proof -
  have code: "generateAccessCode ex_random = ''K7QZ2M''"
    by (simp add: generateAccessCode_def ex_random_def code_chars_def charAt_def upt_rec)
  have h1: "ex_store ''ab12'' = Some ex_share" by (simp add: ex_store_def)
  have h2: "\<not> sh_expiresAt ex_share < 2000" by (simp add: ex_share_def)
  have h3: "sh_accessCode ex_share = generateAccessCode ex_random"
    by (simp add: code ex_share_def)
  have h4: "\<forall>i<6. 0 \<le> ex_random i \<and> ex_random i < 1" by (simp add: ex_random_def)
  have h5: "(\<lambda>p :: string. True) (sh_resolvedPath ex_share)" by simp
  have h6: "\<forall>s. ascii s \<longrightarrow> ex_toUpperCase s = map upper_char s"
    using ex_toUpperCase_ascii by blast
  have a1: "ascii ''k7qZ2m''" and a2: "ascii ''k7qZ2n''" by (simp_all add: ascii_def)
  have v1: "case_variant ''k7qZ2m'' ''K7QZ2M''" by (simp add: case_variant_def same_letter_def)
  have v2: "\<not> case_variant ''k7qZ2n'' ''K7QZ2M''" by (simp add: case_variant_def same_letter_def)
  have acc: "sh_accessCode ex_share = ''K7QZ2M''" by (simp add: ex_share_def)
  note main = verify_accepts_upper_cased_code[where shares = ex_store and shareId = "''ab12''"
         and share = ex_share and stat_ok = "\<lambda>p. True" and newToken = "''t2''"
         and random = ex_random and toUpperCase = ex_toUpperCase, OF h1 h2 h3 h4 h5 h6]
  from main have variants: "ascii code \<Longrightarrow>
      succeeded (fst (verify_share ex_toUpperCase (\<lambda>p. True) ''t2'' 2000 ex_store ''ab12'' (Some code)))
        \<longleftrightarrow> case_variant code (sh_accessCode ex_share)" for code
    by blast
  from variants[OF a1] v1 acc
  have s1: "succeeded (fst (verify_share ex_toUpperCase (\<lambda>p. True) ''t2'' 2000 ex_store ''ab12'' (Some ''k7qZ2m'')))"
    by simp
  from variants[OF a2] v2 acc
  have s2: "\<not> succeeded (fst (verify_share ex_toUpperCase (\<lambda>p. True) ''t2'' 2000 ex_store ''ab12'' (Some ''k7qZ2n'')))"
    by simp
  have r: "0 \<le> ex_random 0 \<and> ex_random 5 < 1" by (simp add: ex_random_def)
  have u: "ex_toUpperCase ''k7qZ2m'' = map upper_char ''k7qZ2m''"
    using ex_toUpperCase_ascii[OF a1] .
  from s1 s2 r u h1 h2 h3 a1 v1 show ?thesis by blast
qed

lemma share_target_dotdot:
  assumes "sh_isDirectory share" "\<not> falsy_str qpath" "prefix ''..'' (path_normalize (the qpath))"
  shows "share_target share qpath = Fail 400 ''Cannot access paths outside shared directory.''"
  using assms by (simp add: share_target_def)

lemma share_target_prefix:
  "share_target share qpath = Success t \<Longrightarrow> prefix (sh_resolvedPath share) t"
  by (auto simp: share_target_def Let_def split: if_splits)

text \<open>
  Claim C5, at a concrete input. In the shared directory \<open>/data/docs\<close> the entry \<open>link\<close>
  is a symbolic link to \<open>/data/private\<close>. The sub-path \<open>link/secret.txt\<close> passes both
  lexical checks, and the access reads \<open>/data/private/secret.txt\<close>, which is not at or
  below the share's resolved root.
\<close>

theorem share_access_follows_symlink_out_of_share:
  "share_target ex_share (Some ''link/secret.txt'') = Success ''/data/docs/link/secret.txt'' \<and>
   fst (share_access ex_realpath_docs 2000 ex_store ''ab12'' (Some ''tok'') (Some ''link/secret.txt''))
     = Success (Inr ''/data/private/secret.txt'') \<and>
   \<not> within_boundary ''/data/docs'' ''/data/private/secret.txt''"
  by code_simp

section \<open>Properties of the search engine\<close>

lemma cap_cap: "cap n (cap n r m1) m2 = cap n r (m1 @ m2)"
proof -
  have "n - (length r + min (length m1) (n - length r)) = n - (length r + length m1)"
    by arith
  then show ?thesis by (simp add: cap_def)
qed

lemma stretchD:
  assumes "stretch env st tmo n m s s'"
  shows "ticks s \<le> ticks s'"
    and "timedOut s' \<longleftrightarrow>
           timedOut s \<or> (\<exists>j. ticks s \<le> j \<and> j < ticks s' \<and> se_now env j - st > tmo)"
    and "length (results s') \<le> max (length (results s)) n"
    and "\<not> timedOut s' \<Longrightarrow> results s' = cap n (results s) m"
    and "clock_mono env \<Longrightarrow> timedOut s \<Longrightarrow> seen_timeout env st tmo s
           \<Longrightarrow> results s' = results s"
    and "clock_mono env \<Longrightarrow> seen_timeout env st tmo s
           \<Longrightarrow> \<exists>k. results s' = results s @ take k m"
  using assms unfolding stretch_def by blast+

lemma stretchI:
  assumes "ticks s \<le> ticks s'"
    and "timedOut s' \<longleftrightarrow>
           timedOut s \<or> (\<exists>j. ticks s \<le> j \<and> j < ticks s' \<and> se_now env j - st > tmo)"
    and "length (results s') \<le> max (length (results s)) n"
    and "\<not> timedOut s' \<Longrightarrow> results s' = cap n (results s) m"
    and "clock_mono env \<Longrightarrow> timedOut s \<Longrightarrow> seen_timeout env st tmo s
           \<Longrightarrow> results s' = results s"
    and "clock_mono env \<Longrightarrow> seen_timeout env st tmo s
           \<Longrightarrow> \<exists>k. results s' = results s @ take k m"
  shows "stretch env st tmo n m s s'"
  using assms unfolding stretch_def by blast

lemma stretch_trans:
  assumes one: "stretch env st tmo n m1 s s1" and two: "stretch env st tmo n m2 s1 s2"
  shows "stretch env st tmo n (m1 @ m2) s s2"
proof (rule stretchI)
  note A = stretchD[OF one] and B = stretchD[OF two]
  show t: "ticks s \<le> ticks s2" using A(1) B(1) by simp
  show "timedOut s2 \<longleftrightarrow>
      timedOut s \<or> (\<exists>j. ticks s \<le> j \<and> j < ticks s2 \<and> se_now env j - st > tmo)"
  proof
    assume "timedOut s2"
    with B(2) consider "timedOut s1"
      | j where "ticks s1 \<le> j" "j < ticks s2" "se_now env j - st > tmo"
      by blast
    then show "timedOut s \<or> (\<exists>j. ticks s \<le> j \<and> j < ticks s2 \<and> se_now env j - st > tmo)"
    proof cases
      case 1
      with A(2) consider "timedOut s"
        | j where "ticks s \<le> j" "j < ticks s1" "se_now env j - st > tmo"
        by blast
      then show ?thesis
      proof cases
        case 1 then show ?thesis by simp
      next
        case 2 with B(1) show ?thesis by (meson less_le_trans)
      qed
    next
      case 2
      with A(1) show ?thesis by (meson le_trans)
    qed
  next
    assume "timedOut s \<or> (\<exists>j. ticks s \<le> j \<and> j < ticks s2 \<and> se_now env j - st > tmo)"
    then consider "timedOut s"
      | j where "ticks s \<le> j" "j < ticks s2" "se_now env j - st > tmo" by blast
    then show "timedOut s2"
    proof cases
      case 1
      with A(2) have "timedOut s1" by blast
      with B(2) show ?thesis by blast
    next
      case 2
      show ?thesis
      proof (cases "j < ticks s1")
        case True
        with 2 A(2) have "timedOut s1" by blast
        with B(2) show ?thesis by blast
      next
        case False
        then have "ticks s1 \<le> j" by simp
        with 2 B(2) show ?thesis by blast
      qed
    qed
  qed
  show "length (results s2) \<le> max (length (results s)) n"
    using A(3) B(3) by simp
  show "results s2 = cap n (results s) (m1 @ m2)" if nt: "\<not> timedOut s2"
  proof -
    from nt B(2) have n1: "\<not> timedOut s1" by blast
    from B(4)[OF nt] A(4)[OF n1] show ?thesis by (simp add: cap_cap)
  qed
  have seen1: "seen_timeout env st tmo s1" if "seen_timeout env st tmo s"
  proof (unfold seen_timeout_def, intro impI)
    assume "timedOut s1"
    with A(2) consider "timedOut s"
      | j where "ticks s \<le> j" "j < ticks s1" "se_now env j - st > tmo"
      by blast
    then show "\<exists>i. i < ticks s1 \<and> se_now env i - st > tmo"
    proof cases
      case 1
      with that obtain i where "i < ticks s" "se_now env i - st > tmo"
        unfolding seen_timeout_def by blast
      with A(1) show ?thesis by (meson less_le_trans)
    next
      case 2 then show ?thesis by blast
    qed
  qed
  show "results s2 = results s"
    if mono: "clock_mono env" and to: "timedOut s" and seen: "seen_timeout env st tmo s"
  proof -
    from A(5)[OF mono to seen] have r1: "results s1 = results s" .
    from to A(2) have t1: "timedOut s1" by blast
    from B(5)[OF mono t1 seen1[OF seen]] r1 show ?thesis by simp
  qed
  show "\<exists>k. results s2 = results s @ take k (m1 @ m2)"
    if mono: "clock_mono env" and seen: "seen_timeout env st tmo s"
  proof -
    from A(6)[OF mono seen] obtain k1 where k1: "results s1 = results s @ take k1 m1" by blast
    from B(6)[OF mono seen1[OF seen]] obtain k2
      where k2: "results s2 = results s1 @ take k2 m2" by blast
    show ?thesis
    proof (cases "timedOut s1")
      case True
      from B(5)[OF mono True seen1[OF seen]] have "results s2 = results s1" .
      with k1 have "results s2 = results s @ take (min k1 (length m1)) (m1 @ m2)"
        by (simp add: min_def)
      then show ?thesis by blast
    next
      case False
      from A(4)[OF False] have c1: "results s1 = results s @ take (n - length (results s)) m1"
        by (simp add: cap_def)
      show ?thesis
      proof (cases "length m1 \<le> n - length (results s)")
        case True
        with c1 k2 have "results s2 = results s @ take (length m1 + k2) (m1 @ m2)"
          by simp
        then show ?thesis by blast
      next
        case short: False
        with c1 have "n \<le> length (results s1)" by simp
        with B(3) have "length (results s2) \<le> length (results s1)" by simp
        with k2 have "length (take k2 m2) = 0" by simp
        then have "take k2 m2 = []" by (simp only: length_0_conv)
        with k2 have "results s2 = results s1" by simp
        with c1 short have "results s2 = results s @ take (n - length (results s)) (m1 @ m2)"
          by simp
        then show ?thesis by blast
      qed
    qed
  qed
qed

lemma seen_timeout_forward:
  assumes "clock_mono env" "timedOut s" "seen_timeout env st tmo s" "ticks s \<le> j"
  shows "se_now env j - st > tmo"
proof -
  from assms(2,3) obtain i where i: "i < ticks s" "se_now env i - st > tmo"
    by (auto simp: seen_timeout_def)
  with assms(4) have "i \<le> j" by simp
  with assms(1) have "se_now env i \<le> se_now env j" by (simp add: clock_mono_def)
  with i(2) show ?thesis by simp
qed

lemma stretch_full:
  assumes "int (length (results s)) \<ge> maxResults"
  shows "stretch env st tmo (nat maxResults) m s s"
proof -
  have "\<exists>k. results s = results s @ take k m" by (rule exI[of _ 0]) simp
  with assms show ?thesis by (auto simp: stretch_def cap_def)
qed

lemma stretch_timeout:
  assumes "Date_now env s = (t, s1)" "t - st > tmo"
  shows "stretch env st tmo n m s (s1\<lparr>timedOut := True\<rparr>)"
proof -
  have "\<exists>k. results s = results s @ take k m" by (rule exI[of _ 0]) simp
  with assms show ?thesis by (auto simp: stretch_def Date_now_def)
qed

lemma tick_window:
  "(\<exists>j. ticks s \<le> j \<and> j < ticks s + 1 \<and> se_now env j - st > tmo)
     \<longleftrightarrow> se_now env (ticks s) - st > tmo"
proof
  assume "\<exists>j. ticks s \<le> j \<and> j < ticks s + 1 \<and> se_now env j - st > tmo"
  then obtain j where "ticks s \<le> j" "j < ticks s + 1" "se_now env j - st > tmo" by blast
  moreover from this have "j = ticks s" by simp
  ultimately show "se_now env (ticks s) - st > tmo" by simp
next
  assume "se_now env (ticks s) - st > tmo"
  then show "\<exists>j. ticks s \<le> j \<and> j < ticks s + 1 \<and> se_now env j - st > tmo"
    by (intro exI[of _ "ticks s"]) simp
qed

lemma stretch_tick:
  assumes "Date_now env s = (t, s1)" "\<not> t - st > tmo"
  shows "stretch env st tmo n [] s s1"
proof -
  from assms(1) have s1: "s1 = s\<lparr>ticks := ticks s + 1\<rparr>" and t: "t = se_now env (ticks s)"
    by (auto simp: Date_now_def)
  from assms(2) t have "\<not> (\<exists>j. ticks s \<le> j \<and> j < ticks s + 1 \<and> se_now env j - st > tmo)"
    by (simp only: tick_window) simp
  then show ?thesis unfolding s1 by (auto simp: stretch_def cap_def)
qed

lemma stretch_tick_push:
  assumes dn: "Date_now env s = (t, s1)" and ntmo: "\<not> t - st > tmo"
      and nfull: "\<not> int (length (results s)) \<ge> maxResults"
  shows "stretch env st tmo (nat maxResults) [e] s (push e s1)"
proof -
  from dn have s1: "s1 = s\<lparr>ticks := ticks s + 1\<rparr>" and t: "t = se_now env (ticks s)"
    by (auto simp: Date_now_def)
  from nfull have room: "length (results s) < nat maxResults" by linarith
  from ntmo t have quiet: "\<not> (\<exists>j. ticks s \<le> j \<and> j < ticks s + 1 \<and> se_now env j - st > tmo)"
    by (simp only: tick_window) simp
  have nofreeze: "\<not> (clock_mono env \<and> timedOut s \<and> seen_timeout env st tmo s)"
  proof
    assume "clock_mono env \<and> timedOut s \<and> seen_timeout env st tmo s"
    then have "se_now env (ticks s) - st > tmo"
      using seen_timeout_forward[of env s st tmo "ticks s"] by simp
    with ntmo t show False by simp
  qed
  have one: "\<exists>k. results s @ [e] = results s @ take k [e]" by (rule exI[of _ 1]) simp
  have r: "results (push e s1) = results s @ [e]" by (simp add: s1 push_def)
  show ?thesis unfolding stretch_def
  proof (intro conjI impI)
    show "ticks s \<le> ticks (push e s1)" by (simp add: s1 push_def)
    have "ticks (push e s1) = ticks s + 1" "timedOut (push e s1) = timedOut s"
      by (simp_all add: s1 push_def)
    with quiet show "timedOut (push e s1) \<longleftrightarrow>
        timedOut s \<or> (\<exists>j. ticks s \<le> j \<and> j < ticks (push e s1) \<and> se_now env j - st > tmo)"
      by metis
    show "length (results (push e s1)) \<le> max (length (results s)) (nat maxResults)"
      using room r by simp
    show "results (push e s1) = cap (nat maxResults) (results s) [e]"
      using room r by (simp add: cap_def)
    show "results (push e s1) = results s"
      if "clock_mono env \<and> timedOut s \<and> seen_timeout env st tmo s"
      using that nofreeze by blast
    show "\<exists>k. results (push e s1) = results s @ take k [e]"
      using one r by simp
  qed
qed

lemma stretch_nil: "stretch env st tmo n [] s s"
proof (rule stretchI)
  show "timedOut s \<longleftrightarrow>
      timedOut s \<or> (\<exists>j. ticks s \<le> j \<and> j < ticks s \<and> se_now env j - st > tmo)"
    by auto
qed (simp_all add: cap_def)

lemma Date_now_results:
  "Date_now env s = (t, s1) \<Longrightarrow> results s1 = results s"
  by (auto simp: Date_now_def)

lemma searchFiles_stretch:
  "stretch env st tmo (nat maxResults) (file_matches env dirPath files lq) s
     (searchFiles env dirPath files lq maxResults st tmo s)"
proof (induction files arbitrary: s)
  case Nil
  show ?case using stretch_nil[of env st tmo "nat maxResults" s] by (simp add: file_matches_def)
next
  case (Cons d rest)
  let ?M = "file_matches env dirPath (d # rest) lq"
  show ?case
  proof (cases "int (length (results s)) \<ge> maxResults")
    case True
    then show ?thesis using stretch_full[OF True] by simp
  next
    case nfull: False
    obtain t s1 where dn: "Date_now env s = (t, s1)" by (cases "Date_now env s")
    show ?thesis
    proof (cases "t - st > tmo")
      case True
      with nfull dn stretch_timeout[OF dn True] show ?thesis by simp
    next
      case ntmo: False
      note tick = stretch_tick[OF dn ntmo, of "nat maxResults"]
      have nfull1: "\<not> int (length (results s1)) \<ge> maxResults"
        using nfull Date_now_results[OF dn] by simp
      show ?thesis
      proof (cases "str_includes (se_toLowerCase env (node_name d)) lq")
        case hit: True
        show ?thesis
        proof (cases "node_stat d")
          case None
          have m: "?M = [] @ file_matches env dirPath rest lq"
            using hit None by (simp add: file_matches_def)
          have "stretch env st tmo (nat maxResults) ?M s
                  (searchFiles env dirPath rest lq maxResults st tmo s1)"
            unfolding m by (rule stretch_trans[OF tick Cons.IH])
          with nfull dn ntmo hit None show ?thesis by simp
        next
          case (Some stats)
          let ?e = "file_entry env dirPath d stats"
          have m: "?M = [?e] @ file_matches env dirPath rest lq"
            using hit Some by (simp add: file_matches_def)
          have "stretch env st tmo (nat maxResults) ?M s
                  (searchFiles env dirPath rest lq maxResults st tmo (push ?e s1))"
            unfolding m
            by (rule stretch_trans[OF stretch_tick_push[OF dn ntmo nfull] Cons.IH])
          with nfull dn ntmo hit Some show ?thesis by simp
        qed
      next
        case miss: False
        have m: "?M = [] @ file_matches env dirPath rest lq"
          using miss by (simp add: file_matches_def)
        have "stretch env st tmo (nat maxResults) ?M s
                (searchFiles env dirPath rest lq maxResults st tmo s1)"
          unfolding m by (rule stretch_trans[OF tick Cons.IH])
        with nfull dn ntmo miss show ?thesis by simp
      qed
    qed
  qed
qed

lemma searchDirectory_searchDirs_stretch:
  "stretch env st tmo (nat maxResults) (all_matches env dirPath rd query) s
     (searchDirectory env dirPath rd query maxResults st tmo s)"
  "stretch env' st' tmo' (nat maxResults') (dir_matches env' dirPath' ds query') s'
     (searchDirs env' dirPath' ds query' maxResults' st' tmo' s')"
proof (induction env dirPath rd query maxResults st tmo s
         and env' dirPath' ds query' maxResults' st' tmo' s'
       rule: searchDirectory_searchDirs.induct)
  case (1 env dirPath readdir query maxResults startTime timeout s)
  let ?M = "all_matches env dirPath readdir query"
  show ?case
  proof (cases "int (length (results s)) \<ge> maxResults")
    case True
    then show ?thesis using stretch_full[OF True] by simp
  next
    case nfull: False
    obtain t s1 where dn: "Date_now env s = (t, s1)" by (cases "Date_now env s")
    show ?thesis
    proof (cases "t - startTime > timeout")
      case True
      with nfull dn stretch_timeout[OF dn True] show ?thesis by simp
    next
      case ntmo: False
      note tick = stretch_tick[OF dn ntmo, of "nat maxResults"]
      show ?thesis
      proof (cases readdir)
        case None
        with nfull dn ntmo tick show ?thesis by simp
      next
        case (Some dirents)
        let ?files = "filter (\<lambda>d. \<not> isDirectory d) dirents"
        let ?dirs = "filter isDirectory dirents"
        let ?s2 = "searchFiles env dirPath ?files (se_toLowerCase env query) maxResults startTime timeout s1"
        note ih = "1.IH"[OF nfull refl dn[symmetric] ntmo Some refl refl refl refl]
        have m: "?M = [] @ file_matches env dirPath ?files (se_toLowerCase env query)
                       @ dir_matches env dirPath ?dirs query"
          using Some by simp
        have "stretch env startTime timeout (nat maxResults) ?M s
                (searchDirs env dirPath ?dirs query maxResults startTime timeout ?s2)"
          unfolding m by (rule stretch_trans[OF tick stretch_trans[OF searchFiles_stretch ih]])
        with nfull dn ntmo Some show ?thesis by (simp add: Let_def)
      qed
    qed
  qed
next
  case (2 env dirPath query maxResults startTime timeout s)
  show ?case using stretch_nil[of env startTime timeout "nat maxResults" s] by simp
next
  case (3 env dirPath dirent rest query maxResults startTime timeout s)
  let ?M = "dir_matches env dirPath (dirent # rest) query"
  show ?case
  proof (cases "int (length (results s)) \<ge> maxResults")
    case True
    then show ?thesis using stretch_full[OF True] by simp
  next
    case nfull: False
    obtain t s1 where dn: "Date_now env s = (t, s1)" by (cases "Date_now env s")
    show ?thesis
    proof (cases "t - startTime > timeout")
      case True
      with nfull dn stretch_timeout[OF dn True] show ?thesis by simp
    next
      case ntmo: False
      note tick = stretch_tick[OF dn ntmo, of "nat maxResults"]
      have nfull1: "\<not> int (length (results s1)) \<ge> maxResults"
        using nfull Date_now_results[OF dn] by simp
      let ?entryPath = "path_join [dirPath, node_name dirent]"
      let ?hit = "(if str_includes (se_toLowerCase env (node_name dirent)) (se_toLowerCase env query)
                   then (case node_stat dirent of
                           Some stats \<Rightarrow> [dir_entry env dirPath dirent stats] | None \<Rightarrow> [])
                   else [])"
      let ?s2 = "(if str_includes (se_toLowerCase env (node_name dirent)) (se_toLowerCase env query)
                  then (case node_stat dirent of
                          Some stats \<Rightarrow> push (dir_entry env dirPath dirent stats) s1
                        | None \<Rightarrow> s1)
                  else s1)"
      let ?s3 = "searchDirectory env ?entryPath (node_children dirent) query
                   maxResults startTime timeout ?s2"
      have hit: "stretch env startTime timeout (nat maxResults) ?hit s ?s2"
      proof (cases "str_includes (se_toLowerCase env (node_name dirent)) (se_toLowerCase env query)")
        case True
        show ?thesis
        proof (cases "node_stat dirent")
          case None
          with True tick show ?thesis by simp
        next
          case (Some stats)
          with True stretch_tick_push[OF dn ntmo nfull, of "dir_entry env dirPath dirent stats"]
          show ?thesis by simp
        qed
      next
        case False
        with tick show ?thesis by simp
      qed
      note ih1 = "3.IH"(1)[OF nfull refl dn[symmetric] ntmo refl refl]
      note ih2 = "3.IH"(2)[OF nfull refl dn[symmetric] ntmo refl refl refl]
      have m: "?M = ?hit @ all_matches env ?entryPath (node_children dirent) query
                     @ dir_matches env dirPath rest query"
        by simp
      have "stretch env startTime timeout (nat maxResults) ?M s
              (searchDirs env dirPath rest query maxResults startTime timeout ?s3)"
        unfolding m
        by (rule stretch_trans[OF hit stretch_trans[OF ih1 ih2]])
      with nfull dn ntmo show ?thesis by (simp add: Let_def)
    qed
  qed
qed

lemma mset_insort_cmp: "mset (insort_cmp cmp x ys) = add_mset x (mset ys)"
  by (induction ys) auto

lemma mset_js_sort: "mset (js_sort cmp xs) = mset xs"
proof -
  have "mset (foldl (\<lambda>acc x. insort_cmp cmp x acc) acc xs) = mset acc + mset xs" for acc
    by (induction xs arbitrary: acc) (auto simp: mset_insort_cmp)
  from this[of "[]"] show ?thesis by (simp add: js_sort_def)
qed

lemma length_js_sort: "length (js_sort cmp xs) = length xs"
  using mset_js_sort[of cmp xs] by (metis size_mset)

lemma clamp_limit_le: "clamp_limit v \<le> 500"
  by (simp add: clamp_limit_def)

lemma clamp_timeout_le: "clamp_timeout v \<le> 30000"
  by (simp add: clamp_timeout_def)


subsection \<open>The traversal and the walk over its boundaries\<close>

lemma spec_walk_full:
  "int (length acc) \<ge> limit \<Longrightarrow> spec_walk now st tmo limit E k acc = (k, acc, False)"
  by (cases E) simp_all

lemma spec_walk_append:
  "spec_walk now st tmo limit (E1 @ E2) k acc =
     (case spec_walk now st tmo limit E1 k acc of
        (k1, acc1, stopped1) \<Rightarrow>
          if stopped1 then (k1, acc1, True) else spec_walk now st tmo limit E2 k1 acc1)"
proof (induction E1 arbitrary: k acc)
  case Nil
  show ?case by simp
next
  case (Cons ev E1)
  show ?case
  proof (cases "int (length acc) \<ge> limit")
    case True
    then show ?thesis by (simp add: spec_walk_full)
  next
    case False
    then show ?thesis using Cons.IH by simp
  qed
qed

lemma all_matches_events:
  "file_matches env dirPath files lq = List.map_filter id (file_events env dirPath files lq)"
  "all_matches env dirPath rd query = List.map_filter id (all_events env dirPath rd query)"
  "dir_matches env' dirPath' ds query' = List.map_filter id (dir_events env' dirPath' ds query')"
proof -
  show f: "file_matches env dirPath files lq = List.map_filter id (file_events env dirPath files lq)"
    for env dirPath files lq
    by (induction files)
       (simp_all add: file_matches_def file_events_def List.map_filter_def split: option.splits)
  have app: "List.map_filter id (xs @ ys) = List.map_filter id xs @ List.map_filter id ys"
    for xs ys :: "entry option list"
    by (simp add: List.map_filter_def)
  show "all_matches env dirPath rd query = List.map_filter id (all_events env dirPath rd query)"
    and "dir_matches env' dirPath' ds query' = List.map_filter id (dir_events env' dirPath' ds query')"
  proof (induction env dirPath rd query and env' dirPath' ds query' rule: all_matches_dir_matches.induct)
    case (1 env dirPath query)
    show ?case by (simp add: List.map_filter_def)
  next
    case (2 env dirPath dirents query)
    then show ?case by (simp add: f app) (simp add: List.map_filter_def)
  next
    case (3 env dirPath query)
    show ?case by (simp add: List.map_filter_def)
  next
    case (4 env dirPath d rest query)
    then show ?case
      by (simp add: app) (simp add: List.map_filter_def split: option.splits)
  qed
qed

lemma walksI:
  assumes "\<And>k acc stopped. \<not> timedOut s \<Longrightarrow>
             spec_walk (se_now env) st tmo mx E (ticks s) (results s) = (k, acc, stopped) \<Longrightarrow>
             timedOut s' = stopped \<and>
             (if stopped then k \<le> ticks s' \<and> (clock_mono env \<longrightarrow> results s' = acc)
              else results s' = acc \<and> ticks s' = k)"
  shows "walks env st tmo mx E s s'"
  using assms unfolding walks_def by (auto split: prod.splits)

lemma walksD:
  assumes "walks env st tmo mx E s s'" "\<not> timedOut s"
    and "spec_walk (se_now env) st tmo mx E (ticks s) (results s) = (k, acc, stopped)"
  shows "timedOut s' = stopped" "stopped \<Longrightarrow> k \<le> ticks s'"
    "stopped \<Longrightarrow> clock_mono env \<Longrightarrow> results s' = acc"
    "\<not> stopped \<Longrightarrow> results s' = acc" "\<not> stopped \<Longrightarrow> ticks s' = k"
  using assms unfolding walks_def by (auto split: prod.splits if_splits)

lemma walks_full:
  assumes "int (length (results s)) \<ge> mx"
  shows "walks env st tmo mx E s s"
  by (rule walksI) (simp add: spec_walk_full[OF assms])

lemma walks_nil: "walks env st tmo mx [] s s"
  by (rule walksI) simp

lemma walks_timeout:
  assumes "Date_now env s = (t, s1)" "t - st > tmo" "\<not> int (length (results s)) \<ge> mx"
  shows "walks env st tmo mx (ev # E) s (s1\<lparr>timedOut := True\<rparr>)"
  using assms by (intro walksI) (auto simp: Date_now_def)

lemma walks_tick:
  assumes "Date_now env s = (t, s1)" "\<not> t - st > tmo" "\<not> int (length (results s)) \<ge> mx"
  shows "walks env st tmo mx [None] s s1"
  using assms by (intro walksI) (auto simp: Date_now_def)

lemma walks_tick_push:
  assumes "Date_now env s = (t, s1)" "\<not> t - st > tmo" "\<not> int (length (results s)) \<ge> mx"
  shows "walks env st tmo mx [Some e] s (push e s1)"
  using assms by (intro walksI) (auto simp: Date_now_def push_def)

lemma walks_trans:
  assumes w1: "walks env st tmo mx E1 s s1" and w2: "walks env st tmo mx E2 s1 s2"
      and one: "stretch env st tmo n m1 s s1" and two: "stretch env st tmo n m2 s1 s2"
  shows "walks env st tmo mx (E1 @ E2) s s2"
proof (rule walksI)
  fix k acc stopped
  assume nt: "\<not> timedOut s"
    and bw: "spec_walk (se_now env) st tmo mx (E1 @ E2) (ticks s) (results s) = (k, acc, stopped)"
  obtain k1 acc1 stopped1
    where b1: "spec_walk (se_now env) st tmo mx E1 (ticks s) (results s) = (k1, acc1, stopped1)"
    by (cases "spec_walk (se_now env) st tmo mx E1 (ticks s) (results s)")
  note A = walksD[OF w1 nt b1]
  note S1 = stretchD[OF one] and S2 = stretchD[OF two]
  show "timedOut s2 = stopped \<and>
        (if stopped then k \<le> ticks s2 \<and> (clock_mono env \<longrightarrow> results s2 = acc)
         else results s2 = acc \<and> ticks s2 = k)"
  proof (cases stopped1)
    case True
    with bw b1 have eq: "k = k1" "acc = acc1" "stopped"
      by (simp_all add: spec_walk_append)
    from True A(1) have t1: "timedOut s1" by simp
    with S1(2) nt obtain j where "ticks s \<le> j" "j < ticks s1" "se_now env j - st > tmo" by blast
    then have seen: "seen_timeout env st tmo s1" unfolding seen_timeout_def by blast
    have "results s2 = acc1" if mono: "clock_mono env"
      using S2(5)[OF mono t1 seen] A(3)[OF True mono] by simp
    moreover from t1 S2(2) have "timedOut s2" by blast
    moreover from A(2)[OF True] S2(1) have "k1 \<le> ticks s2" by simp
    ultimately show ?thesis using eq by simp
  next
    case False
    with bw b1 have b2: "spec_walk (se_now env) st tmo mx E2 k1 acc1 = (k, acc, stopped)"
      by (simp add: spec_walk_append)
    from False A(1) have nt1: "\<not> timedOut s1" by simp
    from b2 A(4)[OF False] A(5)[OF False]
    have b2': "spec_walk (se_now env) st tmo mx E2 (ticks s1) (results s1) = (k, acc, stopped)"
      by simp
    note B = walksD[OF w2 nt1 b2']
    from B show ?thesis by (cases stopped) simp_all
  qed
qed

lemma searchFiles_walks:
  "walks env st tmo maxResults (file_events env dirPath files lq) s
     (searchFiles env dirPath files lq maxResults st tmo s)"
proof (induction files arbitrary: s)
  case Nil
  show ?case using walks_nil[of env st tmo maxResults s] by (simp add: file_events_def)
next
  case (Cons d rest)
  let ?E = "file_events env dirPath (d # rest) lq"
  have shape: "?E = (hd ?E) # file_events env dirPath rest lq" by (simp add: file_events_def)
  show ?case
  proof (cases "int (length (results s)) \<ge> maxResults")
    case True
    then show ?thesis using walks_full[OF True] by simp
  next
    case nfull: False
    obtain t s1 where dn: "Date_now env s = (t, s1)" by (cases "Date_now env s")
    show ?thesis
    proof (cases "t - st > tmo")
      case True
      have "walks env st tmo maxResults ?E s (s1\<lparr>timedOut := True\<rparr>)"
        by (subst shape) (rule walks_timeout[OF dn True nfull])
      with nfull dn True show ?thesis by simp
    next
      case ntmo: False
      note tick = walks_tick[OF dn ntmo nfull]
      note ticks = stretch_tick[OF dn ntmo, of "nat maxResults"]
      show ?thesis
      proof (cases "str_includes (se_toLowerCase env (node_name d)) lq")
        case hit: True
        show ?thesis
        proof (cases "node_stat d")
          case None
          have e: "?E = [None] @ file_events env dirPath rest lq"
            using hit None by (simp add: file_events_def)
          have "walks env st tmo maxResults ?E s
                  (searchFiles env dirPath rest lq maxResults st tmo s1)"
            unfolding e by (rule walks_trans[OF tick Cons.IH ticks searchFiles_stretch])
          with nfull dn ntmo hit None show ?thesis by simp
        next
          case (Some stats)
          let ?e = "file_entry env dirPath d stats"
          have e: "?E = [Some ?e] @ file_events env dirPath rest lq"
            using hit Some by (simp add: file_events_def)
          have "walks env st tmo maxResults ?E s
                  (searchFiles env dirPath rest lq maxResults st tmo (push ?e s1))"
            unfolding e
            by (rule walks_trans[OF walks_tick_push[OF dn ntmo nfull] Cons.IH
                       stretch_tick_push[OF dn ntmo nfull] searchFiles_stretch])
          with nfull dn ntmo hit Some show ?thesis by simp
        qed
      next
        case miss: False
        have e: "?E = [None] @ file_events env dirPath rest lq"
          using miss by (simp add: file_events_def)
        have "walks env st tmo maxResults ?E s
                (searchFiles env dirPath rest lq maxResults st tmo s1)"
          unfolding e by (rule walks_trans[OF tick Cons.IH ticks searchFiles_stretch])
        with nfull dn ntmo miss show ?thesis by simp
      qed
    qed
  qed
qed

lemma searchDirectory_searchDirs_walks:
  "walks env st tmo maxResults (all_events env dirPath rd query) s
     (searchDirectory env dirPath rd query maxResults st tmo s)"
  "walks env' st' tmo' maxResults' (dir_events env' dirPath' ds query') s'
     (searchDirs env' dirPath' ds query' maxResults' st' tmo' s')"
proof (induction env dirPath rd query maxResults st tmo s
         and env' dirPath' ds query' maxResults' st' tmo' s'
       rule: searchDirectory_searchDirs.induct)
  case (1 env dirPath readdir query maxResults startTime timeout s)
  let ?E = "all_events env dirPath readdir query"
  have shape: "?E = None # tl ?E" by (cases readdir) simp_all
  show ?case
  proof (cases "int (length (results s)) \<ge> maxResults")
    case True
    then show ?thesis using walks_full[OF True] by simp
  next
    case nfull: False
    obtain t s1 where dn: "Date_now env s = (t, s1)" by (cases "Date_now env s")
    show ?thesis
    proof (cases "t - startTime > timeout")
      case True
      have "walks env startTime timeout maxResults ?E s (s1\<lparr>timedOut := True\<rparr>)"
        by (subst shape) (rule walks_timeout[OF dn True nfull])
      with nfull dn True show ?thesis by simp
    next
      case ntmo: False
      note tick = walks_tick[OF dn ntmo nfull]
      note ticks = stretch_tick[OF dn ntmo, of "nat maxResults"]
      show ?thesis
      proof (cases readdir)
        case None
        with nfull dn ntmo tick show ?thesis by simp
      next
        case (Some dirents)
        let ?files = "filter (\<lambda>d. \<not> isDirectory d) dirents"
        let ?dirs = "filter isDirectory dirents"
        let ?s2 = "searchFiles env dirPath ?files (se_toLowerCase env query) maxResults startTime timeout s1"
        note ih = "1.IH"[OF nfull refl dn[symmetric] ntmo Some refl refl refl refl]
        have e: "?E = [None] @ file_events env dirPath ?files (se_toLowerCase env query)
                       @ dir_events env dirPath ?dirs query"
          using Some by simp
        have "walks env startTime timeout maxResults ?E s
                (searchDirs env dirPath ?dirs query maxResults startTime timeout ?s2)"
          unfolding e
          by (rule walks_trans[OF tick walks_trans[OF searchFiles_walks ih searchFiles_stretch
                        searchDirectory_searchDirs_stretch(2)]
                     ticks stretch_trans[OF searchFiles_stretch searchDirectory_searchDirs_stretch(2)]])
        with nfull dn ntmo Some show ?thesis by (simp add: Let_def)
      qed
    qed
  qed
next
  case (2 env dirPath query maxResults startTime timeout s)
  show ?case using walks_nil[of env startTime timeout maxResults s] by simp
next
  case (3 env dirPath dirent rest query maxResults startTime timeout s)
  let ?E = "dir_events env dirPath (dirent # rest) query"
  have shape: "?E = hd ?E # tl ?E" by simp
  show ?case
  proof (cases "int (length (results s)) \<ge> maxResults")
    case True
    then show ?thesis using walks_full[OF True] by simp
  next
    case nfull: False
    obtain t s1 where dn: "Date_now env s = (t, s1)" by (cases "Date_now env s")
    show ?thesis
    proof (cases "t - startTime > timeout")
      case True
      have "walks env startTime timeout maxResults ?E s (s1\<lparr>timedOut := True\<rparr>)"
        by (subst shape) (rule walks_timeout[OF dn True nfull])
      with nfull dn True show ?thesis by simp
    next
      case ntmo: False
      note tick = walks_tick[OF dn ntmo nfull]
      note ticks = stretch_tick[OF dn ntmo, of "nat maxResults"]
      let ?entryPath = "path_join [dirPath, node_name dirent]"
      let ?ev = "(if str_includes (se_toLowerCase env (node_name dirent)) (se_toLowerCase env query)
                  then (case node_stat dirent of
                          Some stats \<Rightarrow> Some (dir_entry env dirPath dirent stats) | None \<Rightarrow> None)
                  else None)"
      let ?hit = "(if str_includes (se_toLowerCase env (node_name dirent)) (se_toLowerCase env query)
                   then (case node_stat dirent of
                           Some stats \<Rightarrow> [dir_entry env dirPath dirent stats] | None \<Rightarrow> [])
                   else [])"
      let ?s2 = "(if str_includes (se_toLowerCase env (node_name dirent)) (se_toLowerCase env query)
                  then (case node_stat dirent of
                          Some stats \<Rightarrow> push (dir_entry env dirPath dirent stats) s1
                        | None \<Rightarrow> s1)
                  else s1)"
      let ?s3 = "searchDirectory env ?entryPath (node_children dirent) query
                   maxResults startTime timeout ?s2"
      have hit: "walks env startTime timeout maxResults [?ev] s ?s2
                 \<and> stretch env startTime timeout (nat maxResults) ?hit s ?s2"
      proof (cases "str_includes (se_toLowerCase env (node_name dirent)) (se_toLowerCase env query)")
        case True
        show ?thesis
        proof (cases "node_stat dirent")
          case None
          with True tick ticks show ?thesis by simp
        next
          case (Some stats)
          with True walks_tick_push[OF dn ntmo nfull, of "dir_entry env dirPath dirent stats"]
            stretch_tick_push[OF dn ntmo nfull, of "dir_entry env dirPath dirent stats"]
          show ?thesis by simp
        qed
      next
        case False
        with tick ticks show ?thesis by simp
      qed
      note ih1 = "3.IH"(1)[OF nfull refl dn[symmetric] ntmo refl refl]
      note ih2 = "3.IH"(2)[OF nfull refl dn[symmetric] ntmo refl refl refl]
      have e: "?E = [?ev] @ all_events env ?entryPath (node_children dirent) query
                     @ dir_events env dirPath rest query"
        by simp
      have "walks env startTime timeout maxResults ?E s
              (searchDirs env dirPath rest query maxResults startTime timeout ?s3)"
        unfolding e
        by (rule walks_trans[OF conjunct1[OF hit] walks_trans[OF ih1 ih2
                      searchDirectory_searchDirs_stretch(1) searchDirectory_searchDirs_stretch(2)]
                   conjunct2[OF hit]
                   stretch_trans[OF searchDirectory_searchDirs_stretch(1)
                                    searchDirectory_searchDirs_stretch(2)]])
      with nfull dn ntmo show ?thesis by (simp add: Let_def)
    qed
  qed
qed


lemma search_run_stretch:
  "stretch env (se_now env 0) timeout (nat limit)
     (all_matches env targetPath (node_children nd) query)
     \<lparr>results = [], timedOut = False, ticks = 1\<rparr>
     (search_run env targetPath nd query limit timeout)"
  using searchDirectory_searchDirs_stretch(1)
          [of env "se_now env 0" timeout limit targetPath "node_children nd" query
              "\<lparr>results = [], timedOut = False, ticks = 1\<rparr>"]
  by (simp add: search_run_def Date_now_def initial_sstate_def)

lemma search_run_walks:
  "walks env (se_now env 0) timeout limit
     (all_events env targetPath (node_children nd) query)
     \<lparr>results = [], timedOut = False, ticks = 1\<rparr>
     (search_run env targetPath nd query limit timeout)"
  using searchDirectory_searchDirs_walks(1)
          [of env "se_now env 0" timeout limit targetPath "node_children nd" query
              "\<lparr>results = [], timedOut = False, ticks = 1\<rparr>"]
  by (simp add: search_run_def Date_now_def initial_sstate_def)

lemma search_run_walk:
  "case spec_walk (se_now env) (se_now env 0) timeout limit
          (all_events env targetPath (node_children nd) query) 1 [] of
     (k, acc, stopped) \<Rightarrow>
       timedOut (search_run env targetPath nd query limit timeout) = stopped \<and>
       (if stopped
        then k \<le> ticks (search_run env targetPath nd query limit timeout) \<and>
             (clock_mono env \<longrightarrow> results (search_run env targetPath nd query limit timeout) = acc)
        else results (search_run env targetPath nd query limit timeout) = acc \<and>
             ticks (search_run env targetPath nd query limit timeout) = k)"
  using search_run_walks[where env = env and timeout = timeout and limit = limit
          and targetPath = targetPath and nd = nd and query = query]
  by (simp add: walks_def)

lemma search_run_facts:
  fixes env targetPath nd query limit timeout
  defines "s' \<equiv> search_run env targetPath nd query limit timeout"
  shows "int (length (results s')) \<le> max 0 limit"
    and "timedOut s' \<longleftrightarrow> (\<exists>j. 1 \<le> j \<and> j < ticks s' \<and> se_now env j - se_now env 0 > timeout)"
    and "\<not> timedOut s' \<Longrightarrow>
           results s' = take (nat limit) (all_matches env targetPath (node_children nd) query)"
    and "clock_mono env \<Longrightarrow>
           \<exists>k. results s' = take k (all_matches env targetPath (node_children nd) query)"
proof -
  let ?s0 = "\<lparr>results = [], timedOut = False, ticks = 1\<rparr>"
  note st = stretchD[OF search_run_stretch[of env timeout limit targetPath nd query, folded s'_def]]
  from st(3) have "length (results s') \<le> nat limit" by simp
  then show "int (length (results s')) \<le> max 0 limit" by linarith
  from st(2) show "timedOut s' \<longleftrightarrow>
      (\<exists>j. 1 \<le> j \<and> j < ticks s' \<and> se_now env j - se_now env 0 > timeout)"
    by simp
  show "results s' = take (nat limit) (all_matches env targetPath (node_children nd) query)"
    if "\<not> timedOut s'"
    using st(4)[OF that] by (simp add: cap_def)
  have "seen_timeout env (se_now env 0) timeout ?s0" by (simp add: seen_timeout_def)
  then show "\<exists>k. results s' = take k (all_matches env targetPath (node_children nd) query)"
    if "clock_mono env"
    using st(6)[OF that] by simp
qed

lemma search_handler_Success:
  assumes "search_handler env fs req = Success resp"
  obtains targetPath nd where
    "\<not> falsy_str (q_q req)" "se_trim env (the (q_q req)) \<noteq> []"
    "resolveSafePathWithSymlinkCheck (fs_realpath fs) (se_root env) (fs_cwd fs)
       (Some (if falsy_str (q_path req) then ''.'' else the (q_path req))) = Inr targetPath"
    "fs_stat fs targetPath = Inr nd" "isDirectory nd"
    "sr_results resp = js_sort (compare_entries env)
        (results (search_run env targetPath nd (se_trim env (the (q_q req)))
                    (clamp_limit (q_limit req)) (clamp_timeout (q_timeout req))))"
    "sr_resultCount resp = length (sr_results resp)"
    "sr_truncated resp = (int (length (sr_results resp)) \<ge> clamp_limit (q_limit req))"
    "sr_timedOut resp = timedOut (search_run env targetPath nd (se_trim env (the (q_q req)))
                    (clamp_limit (q_limit req)) (clamp_timeout (q_timeout req)))"
proof -
  from assms have q: "\<not> falsy_str (q_q req)" "se_trim env (the (q_q req)) \<noteq> []"
    by (auto simp: search_handler_def Let_def split: if_splits)
  let ?p = "Some (if falsy_str (q_path req) then ''.'' else the (q_path req))"
  obtain targetPath where r: "resolveSafePathWithSymlinkCheck (fs_realpath fs) (se_root env)
       (fs_cwd fs) ?p = Inr targetPath"
  proof (cases "resolveSafePathWithSymlinkCheck (fs_realpath fs) (se_root env) (fs_cwd fs) ?p")
    case (Inl e)
    with assms q have False
      by (cases e rule: error_middleware.cases) (auto simp: search_handler_def Let_def)
    then show ?thesis ..
  next
    case (Inr t) with that show ?thesis by blast
  qed
  obtain nd where n: "fs_stat fs targetPath = Inr nd"
  proof (cases "fs_stat fs targetPath")
    case (Inl e)
    with assms q r have False
      by (cases "FsFailure e" rule: error_middleware.cases)
         (auto simp: search_handler_def Let_def)
    then show ?thesis ..
  next
    case (Inr t) with that show ?thesis by blast
  qed
  from assms q r n have d: "isDirectory nd"
    by (auto simp: search_handler_def Let_def split: if_splits)
  from assms q r n d have
    "resp = \<lparr>sr_query = the (q_q req), sr_path = relativeFromRoot env targetPath,
       sr_results = js_sort (compare_entries env)
          (results (search_run env targetPath nd (se_trim env (the (q_q req)))
                    (clamp_limit (q_limit req)) (clamp_timeout (q_timeout req)))),
       sr_resultCount = length (js_sort (compare_entries env)
          (results (search_run env targetPath nd (se_trim env (the (q_q req)))
                    (clamp_limit (q_limit req)) (clamp_timeout (q_timeout req))))),
       sr_truncated = (int (length (js_sort (compare_entries env)
          (results (search_run env targetPath nd (se_trim env (the (q_q req)))
                    (clamp_limit (q_limit req)) (clamp_timeout (q_timeout req)))))) \<ge> clamp_limit (q_limit req)),
       sr_timedOut = timedOut (search_run env targetPath nd (se_trim env (the (q_q req)))
                    (clamp_limit (q_limit req)) (clamp_timeout (q_timeout req))),
       sr_durationMs = fst (Date_now env (search_run env targetPath nd (se_trim env (the (q_q req)))
                    (clamp_limit (q_limit req)) (clamp_timeout (q_timeout req))))
                       - fst (Date_now env initial_sstate)\<rparr>"
    by (simp add: search_handler_def Let_def)
  then have "sr_results resp = js_sort (compare_entries env)
        (results (search_run env targetPath nd (se_trim env (the (q_q req)))
                    (clamp_limit (q_limit req)) (clamp_timeout (q_timeout req))))"
    "sr_resultCount resp = length (sr_results resp)"
    "sr_truncated resp = (int (length (sr_results resp)) \<ge> clamp_limit (q_limit req))"
    "sr_timedOut resp = timedOut (search_run env targetPath nd (se_trim env (the (q_q req)))
                    (clamp_limit (q_limit req)) (clamp_timeout (q_timeout req)))"
    by simp_all
  with q r n d that show ?thesis by blast
qed

text \<open>
  Claim C7. Whatever the client asks for, the limit is at most 500 and the timeout at most
  30000. When the handler answers a search: the results are the sorted accumulator of the
  traversal and never more than the limit (none, when the limit is negative);
  \<open>truncated\<close> says whether their number has reached the limit; \<open>timedOut\<close> is set
  exactly when one of the clock readings of the traversal (each one is a check at the
  start of a directory or of an entry) is more than the timeout after the start; when it
  is clear, the results are the first \<open>limit\<close> matching entries of the tree, so the
  traversal stops for no other reason than those two; with a clock that does not run
  backwards the results are always an initial segment of the matching entries in
  traversal order. The traversal is measured against the walk of the specification over
  the entry boundaries of the tree, which tests at every boundary first the limit and
  then the clock, read once per boundary, and stops at the first boundary where the limit
  is reached or the reading is beyond the timeout: \<open>timedOut\<close> is reported exactly when
  the timeout stopped the walk; when it did not, the traversal has collected exactly what
  the walk has collected and has read the clock exactly once per boundary passed; when
  it did, the traversal has made the reading that stopped the walk, and with a clock that
  does not run backwards it has collected nothing after that reading. The matching
  entries are the entries of the boundaries.
\<close>

theorem search_is_bounded:
  "clamp_limit l \<le> 500 \<and> clamp_timeout t \<le> 30000 \<and>
   (search_handler env fs req = Success resp \<longrightarrow>
      (\<exists>targetPath nd.
          resolveSafePathWithSymlinkCheck (fs_realpath fs) (se_root env) (fs_cwd fs)
            (Some (if falsy_str (q_path req) then ''.'' else the (q_path req))) = Inr targetPath \<and>
          fs_stat fs targetPath = Inr nd \<and>
          (let limit = clamp_limit (q_limit req);
               timeout = clamp_timeout (q_timeout req);
               query = se_trim env (the (q_q req));
               s' = search_run env targetPath nd query limit timeout
           in int (length (sr_results resp)) \<le> max 0 limit \<and>
              mset (sr_results resp) = mset (results s') \<and>
              sr_truncated resp = (limit \<le> int (length (sr_results resp))) \<and>
              sr_timedOut resp =
                (\<exists>j. 1 \<le> j \<and> j < ticks s' \<and> se_now env j - se_now env 0 > timeout) \<and>
              (\<not> sr_timedOut resp \<longrightarrow>
                 mset (sr_results resp) =
                 mset (take (nat limit) (all_matches env targetPath (node_children nd) query))) \<and>
              (clock_mono env \<longrightarrow>
                 (\<exists>k. mset (sr_results resp) =
                    mset (take k (all_matches env targetPath (node_children nd) query)))) \<and>
              (case spec_walk (se_now env) (se_now env 0) timeout limit
                      (all_events env targetPath (node_children nd) query) 1 [] of
                 (k, acc, stopped) \<Rightarrow>
                   sr_timedOut resp = stopped \<and>
                   (if stopped then k \<le> ticks s' \<and> (clock_mono env \<longrightarrow> results s' = acc)
                    else results s' = acc \<and> ticks s' = k)) \<and>
              all_matches env targetPath (node_children nd) query =
                List.map_filter id (all_events env targetPath (node_children nd) query))))"
proof (intro conjI impI)
  show "clamp_limit l \<le> 500" by (rule clamp_limit_le)
  show "clamp_timeout t \<le> 30000" by (rule clamp_timeout_le)
  assume ok: "search_handler env fs req = Success resp"
  from ok obtain targetPath nd where
    r: "resolveSafePathWithSymlinkCheck (fs_realpath fs) (se_root env) (fs_cwd fs)
       (Some (if falsy_str (q_path req) then ''.'' else the (q_path req))) = Inr targetPath"
    and n: "fs_stat fs targetPath = Inr nd"
    and res: "sr_results resp = js_sort (compare_entries env)
        (results (search_run env targetPath nd (se_trim env (the (q_q req)))
                    (clamp_limit (q_limit req)) (clamp_timeout (q_timeout req))))"
    and tr: "sr_truncated resp = (int (length (sr_results resp)) \<ge> clamp_limit (q_limit req))"
    and tmo: "sr_timedOut resp = timedOut (search_run env targetPath nd (se_trim env (the (q_q req)))
                    (clamp_limit (q_limit req)) (clamp_timeout (q_timeout req)))"
    by (rule search_handler_Success)
  let ?s = "search_run env targetPath nd (se_trim env (the (q_q req)))
                    (clamp_limit (q_limit req)) (clamp_timeout (q_timeout req))"
  let ?E = "all_events env targetPath (node_children nd) (se_trim env (the (q_q req)))"
  note f = search_run_facts[of env targetPath nd "se_trim env (the (q_q req))"
                "clamp_limit (q_limit req)" "clamp_timeout (q_timeout req)"]
  have a: "int (length (sr_results resp)) \<le> max 0 (clamp_limit (q_limit req))"
    using f(1) res by (simp add: length_js_sort)
  have b: "mset (sr_results resp) = mset (results ?s)"
    using res by (simp add: mset_js_sort)
  have c: "sr_timedOut resp =
      (\<exists>j. 1 \<le> j \<and> j < ticks ?s \<and> se_now env j - se_now env 0 > clamp_timeout (q_timeout req))"
    using f(2) tmo by simp
  have d: "\<not> sr_timedOut resp \<longrightarrow>
      mset (sr_results resp) =
      mset (take (nat (clamp_limit (q_limit req)))
             (all_matches env targetPath (node_children nd) (se_trim env (the (q_q req)))))"
    using f(3) tmo b by simp
  have e: "clock_mono env \<longrightarrow>
      (\<exists>k. mset (sr_results resp) =
         mset (take k (all_matches env targetPath (node_children nd) (se_trim env (the (q_q req))))))"
  proof
    assume "clock_mono env"
    from f(4)[OF this] b show "\<exists>k. mset (sr_results resp) =
         mset (take k (all_matches env targetPath (node_children nd) (se_trim env (the (q_q req)))))"
      by auto
  qed
  have w: "case spec_walk (se_now env) (se_now env 0) (clamp_timeout (q_timeout req))
                  (clamp_limit (q_limit req)) ?E 1 [] of
             (k, acc, stopped) \<Rightarrow>
               sr_timedOut resp = stopped \<and>
               (if stopped then k \<le> ticks ?s \<and> (clock_mono env \<longrightarrow> results ?s = acc)
                else results ?s = acc \<and> ticks ?s = k)"
    using search_run_walk[where env = env and timeout = "clamp_timeout (q_timeout req)"
            and limit = "clamp_limit (q_limit req)" and targetPath = targetPath and nd = nd
            and query = "se_trim env (the (q_q req))"]
    by (simp only: tmo)
  have m: "all_matches env targetPath (node_children nd) (se_trim env (the (q_q req))) =
             List.map_filter id ?E"
    by (rule all_matches_events(2))
  from r n a b tr c d e w m
  show "\<exists>targetPath nd.
          resolveSafePathWithSymlinkCheck (fs_realpath fs) (se_root env) (fs_cwd fs)
            (Some (if falsy_str (q_path req) then ''.'' else the (q_path req))) = Inr targetPath \<and>
          fs_stat fs targetPath = Inr nd \<and>
          (let limit = clamp_limit (q_limit req);
               timeout = clamp_timeout (q_timeout req);
               query = se_trim env (the (q_q req));
               s' = search_run env targetPath nd query limit timeout
           in int (length (sr_results resp)) \<le> max 0 limit \<and>
              mset (sr_results resp) = mset (results s') \<and>
              sr_truncated resp = (limit \<le> int (length (sr_results resp))) \<and>
              sr_timedOut resp =
                (\<exists>j. 1 \<le> j \<and> j < ticks s' \<and> se_now env j - se_now env 0 > timeout) \<and>
              (\<not> sr_timedOut resp \<longrightarrow>
                 mset (sr_results resp) =
                 mset (take (nat limit) (all_matches env targetPath (node_children nd) query))) \<and>
              (clock_mono env \<longrightarrow>
                 (\<exists>k. mset (sr_results resp) =
                    mset (take k (all_matches env targetPath (node_children nd) query)))) \<and>
              (case spec_walk (se_now env) (se_now env 0) timeout limit
                      (all_events env targetPath (node_children nd) query) 1 [] of
                 (k, acc, stopped) \<Rightarrow>
                   sr_timedOut resp = stopped \<and>
                   (if stopped then k \<le> ticks s' \<and> (clock_mono env \<longrightarrow> results s' = acc)
                    else results s' = acc \<and> ticks s' = k)) \<and>
              all_matches env targetPath (node_children nd) query =
                List.map_filter id (all_events env targetPath (node_children nd) query))"
    unfolding Let_def
    by (intro exI[of _ targetPath] exI[of _ nd] conjI) assumption+
qed

theorem search_is_bounded_witness:
  "search_handler (ex_ticking_env ''/small'') ex_fs (ex_search ''a'') =
     Success \<lparr>sr_query = ''a'', sr_path = ''.'',
       sr_results =
         [\<lparr>e_name = ''a.txt'', e_path = ''a.txt'', e_isDirectory = False,
             e_size = 3, e_modified = 7, e_mimeType = None\<rparr>],
       sr_resultCount = 1, sr_truncated = False, sr_timedOut = True, sr_durationMs = 10\<rparr> \<and>
   clock_mono (ex_ticking_env ''/small'') \<and>
   spec_walk (se_now (ex_ticking_env ''/small'')) 0 5 10
     (all_events (ex_ticking_env ''/small'') ''/small'' (node_children ex_small_dir) ''a'') 1 []
     = (4, [\<lparr>e_name = ''a.txt'', e_path = ''a.txt'', e_isDirectory = False,
               e_size = 3, e_modified = 7, e_mimeType = None\<rparr>], True) \<and>
   length (all_events (ex_ticking_env ''/small'') ''/small'' (node_children ex_small_dir) ''a'') = 7 \<and>
   search_handler (ex_env ''/small'') ex_fs ((ex_search ''a'')\<lparr>q_limit := Some 2\<rparr>) =
     Success \<lparr>sr_query = ''a'', sr_path = ''.'',
       sr_results =
         [\<lparr>e_name = ''Album'', e_path = ''Album'', e_isDirectory = True,
             e_size = 0, e_modified = 2, e_mimeType = None\<rparr>,
          \<lparr>e_name = ''a.txt'', e_path = ''a.txt'', e_isDirectory = False,
             e_size = 3, e_modified = 7, e_mimeType = None\<rparr>],
       sr_resultCount = 2, sr_truncated = True, sr_timedOut = False, sr_durationMs = 0\<rparr> \<and>
   clock_mono (ex_env ''/small'') \<and>
   clamp_limit (Some 2) = 2 \<and> clamp_limit (Some 100000) \<le> 500 \<and>
   clamp_timeout (Some 100000) \<le> 30000"
proof -
  let ?a = "\<lparr>e_name = ''a.txt'', e_path = ''a.txt'', e_isDirectory = False,
             e_size = 3, e_modified = 7, e_mimeType = None\<rparr>"
  let ?resp1 = "\<lparr>sr_query = ''a'', sr_path = ''.'', sr_results = [?a],
       sr_resultCount = 1, sr_truncated = False, sr_timedOut = True, sr_durationMs = 10\<rparr>"
  let ?resp2 = "\<lparr>sr_query = ''a'', sr_path = ''.'',
       sr_results =
         [\<lparr>e_name = ''Album'', e_path = ''Album'', e_isDirectory = True,
             e_size = 0, e_modified = 2, e_mimeType = None\<rparr>, ?a],
       sr_resultCount = 2, sr_truncated = True, sr_timedOut = False, sr_durationMs = 0\<rparr>"
  have h1: "search_handler (ex_ticking_env ''/small'') ex_fs (ex_search ''a'') = Success ?resp1"
    by code_simp
  have m1: "clock_mono (ex_ticking_env ''/small'')"
    by (simp add: clock_mono_def ex_ticking_env_def)
  have w1: "spec_walk (se_now (ex_ticking_env ''/small'')) 0 5 10
     (all_events (ex_ticking_env ''/small'') ''/small'' (node_children ex_small_dir) ''a'') 1 []
     = (4, [?a], True)"
    by code_simp
  have n1: "length (all_events (ex_ticking_env ''/small'') ''/small'' (node_children ex_small_dir) ''a'') = 7"
    by code_simp
  have h2: "search_handler (ex_env ''/small'') ex_fs ((ex_search ''a'')\<lparr>q_limit := Some 2\<rparr>) =
     Success ?resp2"
    by code_simp
  have c: "clamp_limit (Some 2) = 2" by (simp add: clamp_limit_def or_default_def)
  have m2: "clock_mono (ex_env ''/small'')" by (simp add: clock_mono_def ex_env_def)
  from search_is_bounded[of "Some 100000" "Some 100000" "ex_ticking_env ''/small''" ex_fs
         "ex_search ''a''" ?resp1]
  have cl: "clamp_limit (Some 100000) \<le> 500" "clamp_timeout (Some 100000) \<le> 30000"
    by blast+
  from h1 m1 w1 n1 h2 m2 c cl show ?thesis by blast
qed

lemma file_matches_replicate:
  assumes "str_includes (se_toLowerCase env nm) lq"
  shows "file_matches env p (replicate n (FileNode nm (Some st))) lq
           = replicate n (file_entry env p (FileNode nm (Some st)) st)"
  using assms by (induction n) (simp_all add: file_matches_def)

lemma all_matches_replicate:
  assumes "str_includes (se_toLowerCase env nm) (se_toLowerCase env q)"
  shows "all_matches env p (Some (replicate n (FileNode nm (Some st)))) q
           = replicate n (file_entry env p (FileNode nm (Some st)) st)"
  using file_matches_replicate[OF assms] by simp

lemma ex_big_dir_matches:
  assumes "str_includes (se_toLowerCase env ''a.txt'') (se_toLowerCase env q)"
  shows "length (all_matches env p (node_children ex_big_dir) q) = 1000"
  using all_matches_replicate[of env "''a.txt''" q p 1000] assms
  by (simp add: ex_big_dir_def ex_file_def)

lemma search_handler_blank:
  assumes "falsy_str (q_q req) \<or> se_trim env (the (q_q req)) = []"
  shows "search_handler env fs req
           = Fail 400 (''Query parameter '' @ [CHR 0x22] @ ''q'' @ [CHR 0x22] @ '' is required.'')"
  using assms by (auto simp: search_handler_def Let_def)

text \<open>
  Claim C8, as stated, at a concrete input: over the directory with 1000 entries, all of
  which match the empty query, the search with the empty query, limit 10 and timeout 5
  is answered 400 and returns no results.
\<close>

theorem empty_query_is_rejected:
  "fs_stat ex_fs ''/data'' = Inr ex_big_dir \<and>
   length (all_matches (ex_env ''/data'') ''/data'' (node_children ex_big_dir) []) = 1000 \<and>
   search_handler (ex_env ''/data'') ex_fs (ex_search [])
     = Fail 400 (''Query parameter '' @ [CHR 0x22] @ ''q'' @ [CHR 0x22] @ '' is required.'')"
proof -
  have "str_includes (se_toLowerCase (ex_env ''/data'') ''a.txt'') (se_toLowerCase (ex_env ''/data'') [])"
    by (simp add: str_includes_def ex_env_def ex_toLowerCase_def)
  from ex_big_dir_matches[OF this]
  have "length (all_matches (ex_env ''/data'') ''/data'' (node_children ex_big_dir) []) = 1000" .
  moreover have "search_handler (ex_env ''/data'') ex_fs (ex_search [])
     = Fail 400 (''Query parameter '' @ [CHR 0x22] @ ''q'' @ [CHR 0x22] @ '' is required.'')"
    by (simp add: search_handler_def ex_search_def falsy_str_def Let_def)
  moreover have "fs_stat ex_fs ''/data'' = Inr ex_big_dir" by (simp add: ex_fs_def)
  ultimately show ?thesis by blast
qed

text \<open>
  Claim C8, amended. A search whose query is missing, empty, or reduced to the empty
  string by \<open>trim\<close> is answered 400, whatever the tree, the limit and the timeout. A
  search with any other query, limit 10 and timeout 5 over a tree with at least ten
  entries matching the trimmed query (a thousand, say), during which no clock reading is
  more than 5 ms after the start, returns exactly 10 results with \<open>truncated\<close> set and
  \<open>timedOut\<close> clear.
\<close>

theorem search_ten_of_many:
  assumes nonempty: "q \<noteq> []"
      and query: "se_trim env q \<noteq> []"
      and target: "resolveSafePathWithSymlinkCheck (fs_realpath fs) (se_root env) (fs_cwd fs)
                     (Some (if falsy_str p then ''.'' else the p)) = Inr targetPath"
      and stat: "fs_stat fs targetPath = Inr nd"
      and dir: "isDirectory nd"
      and many: "10 \<le> length (all_matches env targetPath (node_children nd) (se_trim env q))"
      and clock: "\<forall>j. se_now env j - se_now env 0 \<le> 5"
  shows "(\<exists>resp. search_handler env fs \<lparr>q_q = Some q, q_path = p, q_limit = Some 10, q_timeout = Some 5\<rparr>
                   = Success resp \<and>
                 length (sr_results resp) = 10 \<and> sr_truncated resp \<and> \<not> sr_timedOut resp) \<and>
         (\<forall>req. falsy_str (q_q req) \<or> se_trim env (the (q_q req)) = [] \<longrightarrow>
            search_handler env fs req
              = Fail 400 (''Query parameter '' @ [CHR 0x22] @ ''q'' @ [CHR 0x22] @ '' is required.''))"
proof -
  let ?req = "\<lparr>q_q = Some q, q_path = p, q_limit = Some 10, q_timeout = Some 5\<rparr>"
  have lim: "clamp_limit (Some 10) = 10" and tmo: "clamp_timeout (Some 5) = 5"
    by (simp_all add: clamp_limit_def clamp_timeout_def or_default_def)
  let ?s = "search_run env targetPath nd (se_trim env q) 10 5"
  note f = search_run_facts[of env targetPath nd "se_trim env q" 10 5]
  have nt: "\<not> timedOut ?s"
  proof
    assume "timedOut ?s"
    with f(2) obtain j where "se_now env j - se_now env 0 > 5" by blast
    with clock show False by (simp add: not_less[symmetric])
  qed
  from f(3)[OF nt] many have len: "length (results ?s) = 10" by simp
  let ?sorted = "js_sort (compare_entries env) (results ?s)"
  have "search_handler env fs ?req =
          Success \<lparr>sr_query = q, sr_path = relativeFromRoot env targetPath,
                   sr_results = ?sorted, sr_resultCount = length ?sorted,
                   sr_truncated = (int (length ?sorted) \<ge> 10),
                   sr_timedOut = timedOut ?s,
                   sr_durationMs = fst (Date_now env ?s) - fst (Date_now env initial_sstate)\<rparr>"
  proof -
    have fq: "\<not> falsy_str (Some q)" using nonempty by (simp add: falsy_str_def)
    show ?thesis
      using query target stat dir fq
      by (cases "falsy_str p") (simp_all add: search_handler_def Let_def lim tmo)
  qed
  with nt len have a: "\<exists>resp. search_handler env fs ?req = Success resp \<and>
                 length (sr_results resp) = 10 \<and> sr_truncated resp \<and> \<not> sr_timedOut resp"
    by (simp add: length_js_sort)
  have b: "\<forall>req. falsy_str (q_q req) \<or> se_trim env (the (q_q req)) = [] \<longrightarrow>
            search_handler env fs req
              = Fail 400 (''Query parameter '' @ [CHR 0x22] @ ''q'' @ [CHR 0x22] @ '' is required.'')"
    using search_handler_blank by blast
  from a b show ?thesis by blast
qed

theorem search_ten_of_many_witness:
  "''a'' \<noteq> [] \<and> se_trim (ex_env ''/data'') ''a'' = ''a'' \<and>
   resolveSafePathWithSymlinkCheck (fs_realpath ex_fs) (se_root (ex_env ''/data'')) (fs_cwd ex_fs)
     (Some ''.'') = Inr ''/data'' \<and>
   fs_stat ex_fs ''/data'' = Inr ex_big_dir \<and>
   length (all_matches (ex_env ''/data'') ''/data'' (node_children ex_big_dir) ''a'') = 1000 \<and>
   (\<exists>resp. search_handler (ex_env ''/data'') ex_fs (ex_search ''a'') = Success resp \<and>
           length (sr_results resp) = 10 \<and> sr_truncated resp \<and> \<not> sr_timedOut resp) \<and>
   se_trim (ex_env ''/data'') ''  '' = [] \<and>
   search_handler (ex_env ''/data'') ex_fs (ex_search ''  '')
     = Fail 400 (''Query parameter '' @ [CHR 0x22] @ ''q'' @ [CHR 0x22] @ '' is required.'')"
proof -
  have h0: "''a'' \<noteq> []" by simp
  have t: "se_trim (ex_env ''/data'') ''a'' = ''a''"
    by (simp add: ex_env_def ex_trim_def is_space_def)
  then have h1: "se_trim (ex_env ''/data'') ''a'' \<noteq> []" by simp
  have h2: "resolveSafePathWithSymlinkCheck (fs_realpath ex_fs) (se_root (ex_env ''/data''))
              (fs_cwd ex_fs) (Some (if falsy_str None then ''.'' else the None)) = Inr ''/data''"
    by code_simp
  have h3: "fs_stat ex_fs ''/data'' = Inr ex_big_dir" by (simp add: ex_fs_def)
  have h4: "isDirectory ex_big_dir" by (simp add: ex_big_dir_def)
  have inc: "str_includes (se_toLowerCase (ex_env ''/data'') ''a.txt'')
               (se_toLowerCase (ex_env ''/data'') ''a'')" by code_simp
  have m: "length (all_matches (ex_env ''/data'') ''/data'' (node_children ex_big_dir) ''a'') = 1000"
    by (rule ex_big_dir_matches[OF inc])
  then have h5: "10 \<le> length (all_matches (ex_env ''/data'') ''/data''
                     (node_children ex_big_dir) (se_trim (ex_env ''/data'') ''a''))"
    by (simp add: t)
  have h6: "\<forall>j. se_now (ex_env ''/data'') j - se_now (ex_env ''/data'') 0 \<le> 5"
    by (simp add: ex_env_def)
  have f: "falsy_str None" by (simp add: falsy_str_def)
  have b: "se_trim (ex_env ''/data'') ''  '' = []"
    by (simp add: ex_env_def ex_trim_def is_space_def)
  note main = search_ten_of_many[OF h0 h1 h2 h3 h4 h5 h6]
  from main have ok: "\<exists>resp. search_handler (ex_env ''/data'') ex_fs
                   \<lparr>q_q = Some ''a'', q_path = None, q_limit = Some 10, q_timeout = Some 5\<rparr>
                   = Success resp \<and>
                 length (sr_results resp) = 10 \<and> sr_truncated resp \<and> \<not> sr_timedOut resp"
    by blast
  from main have "falsy_str (q_q (ex_search ''  ''))
        \<or> se_trim (ex_env ''/data'') (the (q_q (ex_search ''  ''))) = [] \<longrightarrow>
      search_handler (ex_env ''/data'') ex_fs (ex_search ''  '')
        = Fail 400 (''Query parameter '' @ [CHR 0x22] @ ''q'' @ [CHR 0x22] @ '' is required.'')"
    by blast
  with b have bad: "search_handler (ex_env ''/data'') ex_fs (ex_search ''  '')
        = Fail 400 (''Query parameter '' @ [CHR 0x22] @ ''q'' @ [CHR 0x22] @ '' is required.'')"
    by (simp add: ex_search_def)
  have h2': "resolveSafePathWithSymlinkCheck (fs_realpath ex_fs) (se_root (ex_env ''/data''))
              (fs_cwd ex_fs) (Some ''.'') = Inr ''/data''"
    using h2 f by simp
  have ok': "\<exists>resp. search_handler (ex_env ''/data'') ex_fs (ex_search ''a'') = Success resp \<and>
           length (sr_results resp) = 10 \<and> sr_truncated resp \<and> \<not> sr_timedOut resp"
    using ok by (simp add: ex_search_def)
  from h0 t h2' h3 m ok' b bad show ?thesis by blast
qed

end
